theory Spec2Isabelle
  imports Main
begin

section \<open>Board topology\<close>

text \<open>The two occupant tags \<^verbatim>\<open>'white'\<close> and \<^verbatim>\<open>'black'\<close>. A JavaScript value that may
  also be \<^verbatim>\<open>null\<close> or \<^verbatim>\<open>undefined\<close> (a board entry, \<^verbatim>\<open>playerRole\<close>, \<^verbatim>\<open>winner\<close>) is a
  \<open>color option\<close>, with \<open>None\<close> for the falsy value.\<close>

datatype color = White | Black

text \<open>\<^verbatim>\<open>CELLS\<close> and \<^verbatim>\<open>CELL_SET = new Set(CELLS)\<close> (App.jsx, lines 4-10).\<close>

definition CELLS :: "int list" where
  "CELLS =
    [15,16,17,18,19, 24,25,26,27,28,29, 33,34,35,36,37,38,39,
     42,43,44,45,46,47,48,49, 51,52,53,54,55,56,57,58,59,
     61,62,63,64,65,66,67,68, 71,72,73,74,75,76,77,
     81,82,83,84,85,86, 91,92,93,94,95]"

definition CELL_SET :: "int set" where
  "CELL_SET = set CELLS"

text \<open>\<^verbatim>\<open>standardRows\<close>, the row layout the component renders.\<close>

definition standardRows :: "int list list" where
  "standardRows =
    [[15,16,17,18,19],[24,25,26,27,28,29],[33,34,35,36,37,38,39],
     [42,43,44,45,46,47,48,49],[51,52,53,54,55,56,57,58,59],[61,62,63,64,65,66,67,68],
     [71,72,73,74,75,76,77],[81,82,83,84,85,86],[91,92,93,94,95]]"

text \<open>\<^verbatim>\<open>getNeighbors(cell)\<close>: the six candidates in the order of the source, kept when
  \<^verbatim>\<open>CELL_SET.has(c)\<close>.\<close>

definition getNeighbors :: "int \<Rightarrow> int list" where
  "getNeighbors cell =
     filter (\<lambda>c. c \<in> CELL_SET) [cell - 1, cell + 1, cell - 9, cell + 9, cell - 10, cell + 10]"

text \<open>The positions of a cell on the hexagonal board, read off \<open>standardRows\<close>: the six
  corners are the ends of the first, the middle and the last row; the rim is the first
  row, the last row and the two ends of every row; every other cell is interior.\<close>

definition corners :: "int list" where
  "corners = [hd (standardRows ! 0), last (standardRows ! 0),
              hd (standardRows ! 4), last (standardRows ! 4),
              hd (standardRows ! 8), last (standardRows ! 8)]"

definition rim :: "int list" where
  "rim = standardRows ! 0 @ standardRows ! 8 @ map hd standardRows @ map last standardRows"

definition edges :: "int list" where
  "edges = filter (\<lambda>c. c \<notin> set corners) rim"

definition interior :: "int list" where
  "interior = filter (\<lambda>c. c \<notin> set rim) CELLS"

section \<open>Selection building\<close>

text \<open>\<^verbatim>\<open>isArithmeticSequence\<close> of App.jsx (lines 16-22): the final test is
  \<^verbatim>\<open>sorted.every((val, i) => i === 0 || val - sorted[i-1] === diff)\<close>.
  \<^verbatim>\<open>sort((a,b) => a-b)\<close> is the ascending numeric sort.\<close>

definition isArithmeticSequence :: "int list \<Rightarrow> bool" where
  "isArithmeticSequence cells =
     (if length cells \<le> 1 then True
      else let sorted = sort cells;
               diff = sorted ! 1 - sorted ! 0
           in if diff \<notin> set [1, 9, 10] then False
              else list_all (\<lambda>i. i = 0 \<or> sorted ! i - sorted ! (i - 1) = diff)
                     [0..<length sorted])"

text \<open>\<^verbatim>\<open>isArithmeticSequence\<close> of the component that owns \<^verbatim>\<open>handleCellClick\<close>: the same
  test written as a loop \<^verbatim>\<open>for (let i = 2; i < sorted.length; i++)\<close> returning false at the
  first step that differs.\<close>

definition isArithmeticSequence_for :: "int list \<Rightarrow> bool" where
  "isArithmeticSequence_for cells =
     (if length cells \<le> 1 then True
      else let sorted = sort cells;
               diff = sorted ! 1 - sorted ! 0
           in if diff \<notin> set [1, 9, 10] then False
              else list_all (\<lambda>i. sorted ! i - sorted ! (i - 1) = diff) [2..<length sorted])"

text \<open>The click handler written inline in App.jsx (line 188), without its first branch
  \<^verbatim>\<open>mv ? executeMove(mv) : ...\<close>: what a click on \<open>cell\<close> does to \<^verbatim>\<open>selected\<close> when the cell
  carries no move. \<^verbatim>\<open>color === playerRole\<close> holds when both are the same colour string
  (\<^verbatim>\<open>undefined === null\<close> is false).\<close>

definition onClick :: "(int \<rightharpoonup> color) \<Rightarrow> color option \<Rightarrow> int list \<Rightarrow> int \<Rightarrow> int list" where
  "onClick board playerRole selected cell =
     (let color = board cell;
          isSel = cell \<in> set selected
      in if color \<noteq> None \<and> color = playerRole then
           (if isSel then filter (\<lambda>c. c \<noteq> cell) selected
            else if length selected < 3 \<and> isArithmeticSequence (selected @ [cell])
                 then selected @ [cell]
                 else [cell])
         else selected)"

section \<open>Scores and the push loop\<close>

text \<open>\<^verbatim>\<open>scores\<close> is an object with the two keys \<^verbatim>\<open>white\<close> and \<^verbatim>\<open>black\<close>.\<close>

record scoreboard =
  white :: int
  black :: int

text \<open>\<^verbatim>\<open>s[playerRole]++\<close> and \<^verbatim>\<open>newScores[playerRole] += 1\<close>. With \<^verbatim>\<open>playerRole\<close> null the
  statement writes the key \<^verbatim>\<open>"null"\<close> and leaves both scores as they are.\<close>

definition increment :: "color option \<Rightarrow> scoreboard \<Rightarrow> scoreboard" where
  "increment playerRole s =
     (case playerRole of
        Some White \<Rightarrow> s\<lparr>white := white s + 1\<rparr>
      | Some Black \<Rightarrow> s\<lparr>black := black s + 1\<rparr>
      | None \<Rightarrow> s)"

text \<open>\<^verbatim>\<open>playerRole === 'black' ? 'white' : 'black'\<close>.\<close>

definition opponent :: "color option \<Rightarrow> color" where
  "opponent playerRole = (if playerRole = Some Black then White else Black)"

text \<open>The winner test of both applications:
  \<^verbatim>\<open>s.white >= 6 ? 'white' : s.black >= 6 ? 'black' : null\<close>.\<close>

definition newWinner :: "scoreboard \<Rightarrow> color option" where
  "newWinner s = (if white s \<ge> 6 then Some White else if black s \<ge> 6 then Some Black else None)"

text \<open>The loop
  \<^verbatim>\<open>while (CELL_SET.has(cur) && board[cur] && board[cur] !== playerRole) { pushed.push(cur); cur += dir; }\<close>
  of both enumerations, returning \<^verbatim>\<open>pushed\<close> and \<^verbatim>\<open>cur\<close> as they are when it ends. Nothing
  in the loop itself bounds it (with \<open>dir = 0\<close> on an opponent's cell it would not end), so
  not returning is the value \<open>None\<close>.\<close>

partial_function (option) pushWalk ::
  "(int \<rightharpoonup> color) \<Rightarrow> color option \<Rightarrow> int \<Rightarrow> int list \<Rightarrow> int \<Rightarrow> (int list \<times> int) option" where
  "pushWalk board playerRole dir pushed cur =
     (if cur \<in> CELL_SET \<and> board cur \<noteq> None \<and> board cur \<noteq> playerRole
      then pushWalk board playerRole dir (pushed @ [cur]) (cur + dir)
      else Some (pushed, cur))"

declare pushWalk.simps [code]

text \<open>The body of \<^verbatim>\<open>m.pushed.forEach(c => ...)\<close> in \<^verbatim>\<open>executeMove\<close> (App.jsx, lines 137-141):
  \<^verbatim>\<open>delete b[c]\<close>, then the write at \<^verbatim>\<open>c + m.dir\<close> or the score, cell after cell.\<close>

fun executeMove_pushed ::
  "color option \<Rightarrow> int \<Rightarrow> (int \<rightharpoonup> color) \<times> scoreboard \<Rightarrow> int \<Rightarrow> (int \<rightharpoonup> color) \<times> scoreboard" where
  "executeMove_pushed playerRole dir (b, s) c =
     (let b = b(c := None) in
      if c + dir \<in> CELL_SET then (b(c + dir \<mapsto> opponent playerRole), s)
      else (b, increment playerRole s))"

text \<open>The body of the second \<^verbatim>\<open>move.pushed.forEach(c => ...)\<close> in \<^verbatim>\<open>makeMove\<close>, which runs
  after a first pass has deleted every pushed cell.\<close>

fun makeMove_pushed ::
  "color option \<Rightarrow> int \<Rightarrow> (int \<rightharpoonup> color) \<times> scoreboard \<Rightarrow> int \<Rightarrow> (int \<rightharpoonup> color) \<times> scoreboard" where
  "makeMove_pushed playerRole dir (newBoard, newScores) c =
     (let target = c + dir in
      if target \<in> CELL_SET then (newBoard(target \<mapsto> opponent playerRole), newScores)
      else (newBoard, increment playerRole newScores))"

section \<open>Game state\<close>

text \<open>A move object: \<^verbatim>\<open>{ dir, cells, type: 'move' }\<close> or
  \<^verbatim>\<open>{ dir, cells, type: 'push', pushed, pushTo, triggerCell }\<close>; App.jsx builds its pushes
  without \<^verbatim>\<open>pushTo\<close>. \<open>is_move\<close> and \<open>is_push\<close> read the tag \<^verbatim>\<open>type\<close>.\<close>

datatype move =
    is_move: SimpleMove (dir: int) (cells: "int list")
  | is_push: PushMove (dir: int) (cells: "int list") (pushed: "int list") (pushTo: "int option")
      (triggerCell: int)

text \<open>The stored game (\<^verbatim>\<open>gameState\<close> in App.jsx): the board is an object keyed by cell,
  \<^verbatim>\<open>delete b[c]\<close> removes a key. The fields the rules do not read (\<^verbatim>\<open>players\<close>) are left
  to the record's extension, which \<^verbatim>\<open>{ ...gameState, board: b, ... }\<close> copies.\<close>

record gameState =
  board :: "int \<rightharpoonup> color"
  scores :: scoreboard
  currentTurn :: color
  winner :: "color option"
  gameStarted :: bool

text \<open>The component that owns \<^verbatim>\<open>handleCellClick\<close>, \<^verbatim>\<open>getPossibleMoves\<close> and \<^verbatim>\<open>makeMove\<close>
  keeps the same fields as React state, together with the local ones.\<close>

record component = gameState +
  playerRole :: "color option"
  selected :: "int list"
  message :: string

text \<open>From here on the field names are taken, so a function's parameters are written
  \<open>brd\<close> (the board), \<open>sel\<close> (\<^verbatim>\<open>selected\<close>), \<open>role\<close> (\<^verbatim>\<open>playerRole\<close>), \<open>srt\<close> (\<^verbatim>\<open>sorted\<close>),
  \<open>d\<close> (\<^verbatim>\<open>dir\<close>) and \<open>pushed'\<close> (the local list \<^verbatim>\<open>pushed\<close>).\<close>

text \<open>\<^verbatim>\<open>handleCellClick(cell)\<close>.\<close>

definition handleCellClick :: "int \<Rightarrow> component \<Rightarrow> component" where
  "handleCellClick cell st =
     (if winner st \<noteq> None \<or> playerRole st = None
         \<or> (gameStarted st \<and> Some (currentTurn st) \<noteq> playerRole st) then st
      else let cellColor = board st cell in
        if cell \<in> set (selected st) then st\<lparr>selected := filter (\<lambda>c. c \<noteq> cell) (selected st)\<rparr>
        else if cellColor \<noteq> None \<and> cellColor = playerRole st then
          (if length (selected st) = 0 then st\<lparr>selected := [cell]\<rparr>
           else if length (selected st) < 3 then
             (let sortedPlus = sort (selected st @ [cell])
              in if isArithmeticSequence_for sortedPlus then st\<lparr>selected := sortedPlus\<rparr>
                 else st\<lparr>message := ''Must form a line!''\<rparr>)
           else st\<lparr>message := ''Max 3 balls!''\<rparr>)
        else st)"

section \<open>Move enumeration\<close>

definition directions :: "int list" where
  "directions = [1, -1, 9, -9, 10, -10]"

text \<open>The body of \<^verbatim>\<open>[1, -1, 9, -9, 10, -10].forEach(dir => ...)\<close> in \<^verbatim>\<open>moves\<close> (App.jsx,
  lines 102-122), as a function of the list \<^verbatim>\<open>possible\<close> built so far. The result is
  \<open>None\<close> when the push loop does not return; \<open>moves\<close> and \<open>getPossibleMoves\<close> pass that on.\<close>

definition moves_dir ::
  "(int \<rightharpoonup> color) \<Rightarrow> int list \<Rightarrow> color option \<Rightarrow> int list \<Rightarrow> move list \<Rightarrow> int \<Rightarrow> move list option" where
  "moves_dir brd sel role srt possible d =
     (let targetCells = map (\<lambda>c. c + d) srt in
      if \<not> list_all (\<lambda>c. c \<in> CELL_SET) targetCells then Some possible
      else if list_all (\<lambda>c. brd c = None \<or> c \<in> set sel) targetCells
        then Some (possible @ [SimpleMove d targetCells])
      else if length sel > 1 then
        (let diff = srt ! 1 - srt ! 0 in
         if d = diff \<or> d = - diff then
           (let front = (if d > 0 then srt ! (length srt - 1) else srt ! 0) in
            case pushWalk brd role d [] (front + d) of
              None \<Rightarrow> None
            | Some (pushed', cur) \<Rightarrow>
                if length pushed' > 0 \<and> length pushed' < length sel
                   \<and> (cur \<notin> CELL_SET \<or> brd cur = None)
                then Some (possible @ [PushMove d targetCells pushed' None front])
                else Some possible)
         else Some possible)
      else Some possible)"

text \<open>\<^verbatim>\<open>moves\<close> (App.jsx): empty without a game state, without a selection, or when it is not
  the player's turn.\<close>

definition moves :: "gameState option \<Rightarrow> int list \<Rightarrow> color option \<Rightarrow> move list option" where
  "moves gs sel role =
     (case gs of
        None \<Rightarrow> Some []
      | Some g \<Rightarrow>
          if length sel = 0 \<or> Some (currentTurn g) \<noteq> role then Some []
          else let srt = sort sel in
            foldl (\<lambda>acc d. case acc of
                       None \<Rightarrow> None
                     | Some possible \<Rightarrow> moves_dir (board g) sel role srt possible d)
              (Some []) directions)"

text \<open>The body of \<^verbatim>\<open>for (let dir of directions)\<close> in \<^verbatim>\<open>getPossibleMoves\<close>. \<^verbatim>\<open>diff\<close> is null for
  a single cell, and \<^verbatim>\<open>diff && ...\<close> also fails for \<open>diff = 0\<close>.\<close>

definition getPossibleMoves_dir :: "component \<Rightarrow> int list \<Rightarrow> move list \<Rightarrow> int \<Rightarrow> move list option" where
  "getPossibleMoves_dir st srt mvs d =
     (let newCells = map (\<lambda>c. c + d) srt in
      if \<not> list_all (\<lambda>c. c \<in> CELL_SET) newCells then Some mvs
      else if list_all (\<lambda>c. board st c = None \<or> c \<in> set (selected st)) newCells
        then Some (mvs @ [SimpleMove d newCells])
      else
        (let diff = (if length srt > 1 then Some (srt ! 1 - srt ! 0) else None) in
         if diff \<noteq> None \<and> diff \<noteq> Some 0 \<and> (Some d = diff \<or> Some (- d) = diff) then
           (let front = (if d > 0 then srt ! (length srt - 1) else srt ! 0) in
            case pushWalk (board st) (playerRole st) d [] (front + d) of
              None \<Rightarrow> None
            | Some (pushCells, current) \<Rightarrow>
                if length pushCells > 0 \<and> length pushCells < length (selected st) then
                  (if current \<notin> CELL_SET \<or> board st current = None
                   then Some (mvs @ [PushMove d newCells pushCells (Some current) front])
                   else Some mvs)
                else Some mvs)
         else Some mvs))"

definition getPossibleMoves :: "component \<Rightarrow> move list option" where
  "getPossibleMoves st =
     (if length (selected st) = 0 then Some []
      else let srt = sort (selected st) in
        foldl (\<lambda>acc d. case acc of
                   None \<Rightarrow> None
                 | Some mvs \<Rightarrow> getPossibleMoves_dir st srt mvs d)
          (Some []) directions)"

section \<open>Move application\<close>

text \<open>\<^verbatim>\<open>executeMove(m)\<close> of App.jsx (lines 132-148). Its push branch is one pass over
  \<^verbatim>\<open>m.pushed\<close>. A write of \<^verbatim>\<open>playerRole\<close> stores \<open>None\<close> when it is null (a falsy entry).\<close>

definition executeMove :: "gameState \<Rightarrow> int list \<Rightarrow> color option \<Rightarrow> move \<Rightarrow> gameState" where
  "executeMove gs sel role m =
     (let b = board gs;
          s = scores gs;
          opp = opponent role;
          (b, s) = (case m of
                      PushMove d cs ps pt tc \<Rightarrow> foldl (executeMove_pushed role d) (b, s) ps
                    | SimpleMove d cs \<Rightarrow> (b, s));
          b = foldl (\<lambda>b c. b(c := None)) b sel;
          b = foldl (\<lambda>b c. b(c := role)) b (cells m);
          win = newWinner s
      in gs\<lparr>board := b, scores := s, winner := win, currentTurn := opp\<rparr>)"

text \<open>\<^verbatim>\<open>makeMove(move)\<close>: two passes over \<^verbatim>\<open>move.pushed\<close>, the deletions first, then the
  writes and the score; the new turn is computed from \<^verbatim>\<open>currentTurn\<close>.\<close>

definition makeMove :: "component \<Rightarrow> move \<Rightarrow> component" where
  "makeMove st m =
     (let newBoard = board st;
          newScores = scores st;
          (newBoard, newScores) =
            (case m of
               PushMove d cs ps pt tc \<Rightarrow>
                 foldl (makeMove_pushed (playerRole st) d)
                   (foldl (\<lambda>b c. b(c := None)) newBoard ps, newScores) ps
             | SimpleMove d cs \<Rightarrow> (newBoard, newScores));
          newBoard = foldl (\<lambda>b c. b(c := None)) newBoard (selected st);
          newBoard = foldl (\<lambda>b c. b(c := playerRole st)) newBoard (cells m);
          newTurn = (if currentTurn st = Black then White else Black);
          win = newWinner newScores
      in st\<lparr>board := newBoard, currentTurn := newTurn, scores := newScores,
             winner := win, selected := []\<rparr>)"

section \<open>Walks of selection extensions\<close>

text \<open>A walk of extension attempts: the cells are clicked one after the other, starting from
  the selection given. A click on a cell that is selected at that moment is a deselection, not
  an extension, and ends the walk with \<open>None\<close>. \<open>onClick_walk\<close> runs the click handler of
  App.jsx, \<open>handleCellClick_walk\<close> runs \<^verbatim>\<open>handleCellClick\<close>.\<close>

fun onClick_walk ::
  "(int \<rightharpoonup> color) \<Rightarrow> color option \<Rightarrow> int list \<Rightarrow> int list \<Rightarrow> int list option" where
  "onClick_walk brd role sel [] = Some sel"
| "onClick_walk brd role sel (c # cs) =
     (if c \<in> set sel then None else onClick_walk brd role (onClick brd role sel c) cs)"

fun handleCellClick_walk :: "component \<Rightarrow> int list \<Rightarrow> component option" where
  "handleCellClick_walk st [] = Some st"
| "handleCellClick_walk st (c # cs) =
     (if c \<in> set (selected st) then None else handleCellClick_walk (handleCellClick c st) cs)"

text \<open>The line property in the words of the specification: the sorted coordinates form an
  arithmetic sequence with a constant step, and the step is one of 1, 9 and 10.\<close>

definition constant_step :: "int \<Rightarrow> int list \<Rightarrow> bool" where
  "constant_step k xs = list_all (\<lambda>i. xs ! Suc i - xs ! i = k) [0..<length xs - 1]"

definition spec_line :: "int list \<Rightarrow> bool" where
  "spec_line sel = list_ex (\<lambda>k. constant_step k (sort sel)) [1, 9, 10]"

section \<open>Example positions\<close>

text \<open>Black to move with three stones in row five. On \<open>inside_board\<close> two white stones
  stand in front of them with the cell \<open>59\<close> behind free; on \<open>rim_board\<close> the two white
  stones reach the end of the row. \<open>line_board\<close> holds black stones only.\<close>

definition inside_board :: "int \<rightharpoonup> color" where
  "inside_board = [54 \<mapsto> Black, 55 \<mapsto> Black, 56 \<mapsto> Black, 57 \<mapsto> White, 58 \<mapsto> White]"

definition rim_board :: "int \<rightharpoonup> color" where
  "rim_board = [55 \<mapsto> Black, 56 \<mapsto> Black, 57 \<mapsto> Black, 58 \<mapsto> White, 59 \<mapsto> White]"

definition line_board :: "int \<rightharpoonup> color" where
  "line_board = [62 \<mapsto> Black, 63 \<mapsto> Black, 64 \<mapsto> Black, 65 \<mapsto> Black, 75 \<mapsto> Black]"

definition game_of :: "(int \<rightharpoonup> color) \<Rightarrow> scoreboard \<Rightarrow> gameState" where
  "game_of b s = \<lparr>board = b, scores = s, currentTurn = Black, winner = None, gameStarted = True\<rparr>"

definition component_of :: "(int \<rightharpoonup> color) \<Rightarrow> scoreboard \<Rightarrow> int list \<Rightarrow> component" where
  "component_of b s sel =
     \<lparr>board = b, scores = s, currentTurn = Black, winner = None, gameStarted = True,
      playerRole = Some Black, selected = sel, message = []\<rparr>"

section \<open>The push loop returns\<close>

lemma CELL_SET_bounds: "c \<in> CELL_SET \<Longrightarrow> 15 \<le> c \<and> c \<le> 95"
  by (auto simp: CELL_SET_def CELLS_def)

lemma pushWalk_returns_up:
  assumes "0 < d"
  shows "\<exists>r. pushWalk b p d ps cur = Some r"
proof (induction "nat (96 - cur)" arbitrary: ps cur rule: less_induct)
  case less
  show ?case
  proof (cases "cur \<in> CELL_SET \<and> b cur \<noteq> None \<and> b cur \<noteq> p")
    case True
    then have "cur \<le> 95" using CELL_SET_bounds by blast
    with assms have "nat (96 - (cur + d)) < nat (96 - cur)" by linarith
    from less[OF this] obtain r where "pushWalk b p d (ps @ [cur]) (cur + d) = Some r" by blast
    with True show ?thesis by (subst pushWalk.simps) simp
  next
    case False
    then show ?thesis by (subst pushWalk.simps) auto
  qed
qed

lemma pushWalk_returns_down:
  assumes "d < 0"
  shows "\<exists>r. pushWalk b p d ps cur = Some r"
proof (induction "nat (cur - 14)" arbitrary: ps cur rule: less_induct)
  case less
  show ?case
  proof (cases "cur \<in> CELL_SET \<and> b cur \<noteq> None \<and> b cur \<noteq> p")
    case True
    then have "15 \<le> cur" using CELL_SET_bounds by blast
    with assms have "nat (cur + d - 14) < nat (cur - 14)" by linarith
    from less[OF this] obtain r where "pushWalk b p d (ps @ [cur]) (cur + d) = Some r" by blast
    with True show ?thesis by (subst pushWalk.simps) simp
  next
    case False
    then show ?thesis by (subst pushWalk.simps) auto
  qed
qed

lemma pushWalk_returns: "d \<noteq> 0 \<Longrightarrow> \<exists>r. pushWalk b p d ps cur = Some r"
  using pushWalk_returns_up[of d] pushWalk_returns_down[of d] by (cases "0 < d") auto

lemma pushWalk_run:
  "pushWalk b p d ps cur = Some r \<Longrightarrow>
   \<exists>k. r = (ps @ map (\<lambda>i. cur + int i * d) [0..<k], cur + int k * d)
           \<and> (\<forall>i<k. cur + int i * d \<in> CELL_SET \<and> b (cur + int i * d) \<noteq> None
                     \<and> b (cur + int i * d) \<noteq> p)
           \<and> \<not> (cur + int k * d \<in> CELL_SET \<and> b (cur + int k * d) \<noteq> None
                     \<and> b (cur + int k * d) \<noteq> p)"
proof (induction b p d ps cur r rule: pushWalk.raw_induct[rotated 1, consumes 1])
  case (1 walk b p d ps cur r)
  show ?case
  proof (cases "cur \<in> CELL_SET \<and> b cur \<noteq> None \<and> b cur \<noteq> p")
    case True
    with 1(2) have "walk b p d (ps @ [cur]) (cur + d) = Some r" by simp
    from 1(1)[OF this] obtain k where
      r: "r = ((ps @ [cur]) @ map (\<lambda>i. cur + d + int i * d) [0..<k], cur + d + int k * d)"
      and mid: "\<forall>i<k. cur + d + int i * d \<in> CELL_SET \<and> b (cur + d + int i * d) \<noteq> None
                 \<and> b (cur + d + int i * d) \<noteq> p"
      and stop: "\<not> (cur + d + int k * d \<in> CELL_SET \<and> b (cur + d + int k * d) \<noteq> None
                 \<and> b (cur + d + int k * d) \<noteq> p)"
      by blast
    have shift: "cur + d + int i * d = cur + int (Suc i) * d" for i
      by (simp add: algebra_simps)
    have "map (\<lambda>i. cur + int i * d) [0..<Suc k] = cur # map (\<lambda>i. cur + d + int i * d) [0..<k]"
      unfolding shift by (simp add: upt_rec[of 0 "Suc k"] map_Suc_upt[symmetric] del: upt_Suc)
    with r have r': "r = (ps @ map (\<lambda>i. cur + int i * d) [0..<Suc k], cur + int (Suc k) * d)"
      by (simp add: shift)
    have mid': "\<forall>i<Suc k. cur + int i * d \<in> CELL_SET \<and> b (cur + int i * d) \<noteq> None
                 \<and> b (cur + int i * d) \<noteq> p"
    proof (intro allI impI)
      fix i assume "i < Suc k"
      show "cur + int i * d \<in> CELL_SET \<and> b (cur + int i * d) \<noteq> None \<and> b (cur + int i * d) \<noteq> p"
      proof (cases i)
        case 0
        with True show ?thesis by simp
      next
        case (Suc j)
        with \<open>i < Suc k\<close> have "j < k" by simp
        with mid show ?thesis unfolding Suc shift[symmetric] by blast
      qed
    qed
    from stop have stop': "\<not> (cur + int (Suc k) * d \<in> CELL_SET \<and> b (cur + int (Suc k) * d) \<noteq> None
                 \<and> b (cur + int (Suc k) * d) \<noteq> p)"
      unfolding shift .
    from r' mid' stop' show ?thesis by blast
  next
    case False
    with 1(2) have "r = (ps, cur)" by auto
    with False show ?thesis by (intro exI[of _ 0]) simp
  qed
qed

section \<open>The fields of an applied move\<close>

lemma board_executeMove:
  "board (executeMove gs sel role m) =
     foldl (\<lambda>b c. b(c := role))
       (foldl (\<lambda>b c. b(c := None))
          (fst (case m of
                  PushMove d cs ps pt tc \<Rightarrow> foldl (executeMove_pushed role d) (board gs, scores gs) ps
                | SimpleMove d cs \<Rightarrow> (board gs, scores gs))) sel) (cells m)"
  by (simp add: executeMove_def Let_def split: prod.splits move.splits)

lemma scores_executeMove:
  "scores (executeMove gs sel role m) =
     snd (case m of
            PushMove d cs ps pt tc \<Rightarrow> foldl (executeMove_pushed role d) (board gs, scores gs) ps
          | SimpleMove d cs \<Rightarrow> (board gs, scores gs))"
  by (simp add: executeMove_def Let_def split: prod.splits move.splits)

lemma winner_executeMove:
  "winner (executeMove gs sel role m) = newWinner (scores (executeMove gs sel role m))"
  by (simp add: executeMove_def Let_def split: prod.splits move.splits)


lemma board_makeMove:
  "board (makeMove st m) =
     foldl (\<lambda>b c. b(c := playerRole st))
       (foldl (\<lambda>b c. b(c := None))
          (fst (case m of
                  PushMove d cs ps pt tc \<Rightarrow>
                    foldl (makeMove_pushed (playerRole st) d)
                      (foldl (\<lambda>b c. b(c := None)) (board st) ps, scores st) ps
                | SimpleMove d cs \<Rightarrow> (board st, scores st))) (selected st)) (cells m)"
  by (simp add: makeMove_def Let_def split: prod.splits move.splits)

lemma scores_makeMove:
  "scores (makeMove st m) =
     snd (case m of
            PushMove d cs ps pt tc \<Rightarrow>
              foldl (makeMove_pushed (playerRole st) d)
                (foldl (\<lambda>b c. b(c := None)) (board st) ps, scores st) ps
          | SimpleMove d cs \<Rightarrow> (board st, scores st))"
  by (simp add: makeMove_def Let_def split: prod.splits move.splits)

lemma winner_makeMove:
  "winner (makeMove st m) = newWinner (scores (makeMove st m))"
  by (simp add: makeMove_def Let_def split: prod.splits move.splits)


section \<open>Enumerated moves\<close>

lemma foldl_option_None:
  "foldl (\<lambda>acc d. case acc of None \<Rightarrow> None | Some x \<Rightarrow> f x d) None ds = None"
  by (induction ds) simp_all

lemma foldl_option_returns:
  "(\<And>x d. d \<in> set ds \<Longrightarrow> \<exists>y. f x d = Some y) \<Longrightarrow>
   \<exists>r. foldl (\<lambda>acc d. case acc of None \<Rightarrow> None | Some x \<Rightarrow> f x d) (Some a) ds = Some r"
proof (induction ds arbitrary: a)
  case Nil
  then show ?case by simp
next
  case (Cons d ds)
  from Cons.prems[of d a] obtain y where y: "f a d = Some y" by auto
  from Cons.IH[of y] Cons.prems obtain r where
    "foldl (\<lambda>acc d. case acc of None \<Rightarrow> None | Some x \<Rightarrow> f x d) (Some y) ds = Some r"
    by auto
  with y show ?case by simp
qed

lemma foldl_option_invariant:
  assumes "foldl (\<lambda>acc d. case acc of None \<Rightarrow> None | Some x \<Rightarrow> f x d) (Some a) ds = Some r"
    and "I a"
    and "\<And>x d y. d \<in> set ds \<Longrightarrow> I x \<Longrightarrow> f x d = Some y \<Longrightarrow> I y"
  shows "I r"
  using assms
proof (induction ds arbitrary: a)
  case Nil
  then show ?case by simp
next
  case (Cons d ds)
  show ?case
  proof (cases "f a d")
    case None
    with Cons.prems(1) show ?thesis by (simp add: foldl_option_None)
  next
    case (Some y)
    with Cons.prems(1) have run: "foldl (\<lambda>acc d. case acc of None \<Rightarrow> None | Some x \<Rightarrow> f x d) (Some y) ds = Some r"
      by simp
    have "I y" using Cons.prems(3)[of d a y] Cons.prems(2) Some by simp
    show ?thesis
      by (rule Cons.IH[OF run \<open>I y\<close>]) (rule Cons.prems(3), simp_all)
  qed
qed

lemma directions_nonzero: "d \<in> set directions \<Longrightarrow> d \<noteq> 0"
  by (auto simp: directions_def)

lemma moves_dir_returns:
  assumes "d \<noteq> 0"
  shows "\<exists>y. moves_dir brd sel role srt possible d = Some y"
proof -
  from pushWalk_returns[OF assms] obtain r where
    "pushWalk brd role d [] ((if d > 0 then srt ! (length srt - 1) else srt ! 0) + d) = Some r"
    by blast
  then show ?thesis
    by (cases r) (simp add: moves_dir_def Let_def)
qed

lemma moves_returns: "\<exists>ms. moves gs sel role = Some ms"
proof (cases gs)
  case None
  then show ?thesis by (simp add: moves_def)
next
  case (Some g)
  have "\<exists>r. foldl (\<lambda>acc d. case acc of None \<Rightarrow> None
             | Some possible \<Rightarrow> moves_dir (board g) sel role (sort sel) possible d)
           (Some []) directions = Some r"
    by (rule foldl_option_returns) (simp add: moves_dir_returns directions_nonzero)
  with Some show ?thesis by (auto simp: moves_def Let_def)
qed

lemma moves_dir_Some:
  assumes "moves_dir brd sel role srt possible d = Some possible'"
  shows "possible' = possible
    \<or> (possible' = possible @ [SimpleMove d (map (\<lambda>c. c + d) srt)]
        \<and> (\<forall>c\<in>set srt. c + d \<in> CELL_SET \<and> (brd (c + d) = None \<or> c + d \<in> set sel)))
    \<or> (\<exists>ps cur. possible' = possible @ [PushMove d (map (\<lambda>c. c + d) srt) ps None
                                           (if d > 0 then srt ! (length srt - 1) else srt ! 0)]
        \<and> pushWalk brd role d [] ((if d > 0 then srt ! (length srt - 1) else srt ! 0) + d)
            = Some (ps, cur)
        \<and> 0 < length ps \<and> length ps < length sel
        \<and> (cur \<notin> CELL_SET \<or> brd cur = None)
        \<and> (\<forall>c\<in>set srt. c + d \<in> CELL_SET))"
  using assms
  by (auto simp: moves_dir_def Let_def list_all_iff split: if_splits option.splits prod.splits)

lemma moves_elem:
  assumes "moves (Some g) sel role = Some ms" and "m \<in> set ms"
  obtains (simple) d where "d \<in> set directions" "sel \<noteq> []" "role = Some (currentTurn g)"
      "m = SimpleMove d (map (\<lambda>c. c + d) (sort sel))"
      "\<forall>c\<in>set sel. c + d \<in> CELL_SET \<and> (board g (c + d) = None \<or> c + d \<in> set sel)"
  | (push) d ps cur where "d \<in> set directions" "sel \<noteq> []" "role = Some (currentTurn g)"
      "m = PushMove d (map (\<lambda>c. c + d) (sort sel)) ps None
             (if d > 0 then sort sel ! (length sel - 1) else sort sel ! 0)"
      "pushWalk (board g) role d [] ((if d > 0 then sort sel ! (length sel - 1) else sort sel ! 0) + d)
         = Some (ps, cur)"
      "0 < length ps" "length ps < length sel"
      "cur \<notin> CELL_SET \<or> board g cur = None"
      "\<forall>c\<in>set sel. c + d \<in> CELL_SET"
proof -
  define S where "S = (\<lambda>m d. m = SimpleMove d (map (\<lambda>c. c + d) (sort sel))
      \<and> (\<forall>c\<in>set sel. c + d \<in> CELL_SET \<and> (board g (c + d) = None \<or> c + d \<in> set sel)))"
  define P where "P = (\<lambda>m d. \<exists>ps cur. m = PushMove d (map (\<lambda>c. c + d) (sort sel)) ps None
             (if d > 0 then sort sel ! (length sel - 1) else sort sel ! 0)
      \<and> pushWalk (board g) role d [] ((if d > 0 then sort sel ! (length sel - 1) else sort sel ! 0) + d)
         = Some (ps, cur)
      \<and> 0 < length ps \<and> length ps < length sel
      \<and> (cur \<notin> CELL_SET \<or> board g cur = None)
      \<and> (\<forall>c\<in>set sel. c + d \<in> CELL_SET))"
  define I where "I = (\<lambda>xs. \<forall>m\<in>set xs. \<exists>d\<in>set directions. S m d \<or> P m d)"
  from assms have ng: "\<not> (length sel = 0 \<or> Some (currentTurn g) \<noteq> role)"
    by (auto simp: moves_def split: if_splits)
  then have guard: "sel \<noteq> []" "role = Some (currentTurn g)"
    by auto
  from assms(1) have run: "foldl (\<lambda>acc d. case acc of None \<Rightarrow> None
             | Some possible \<Rightarrow> moves_dir (board g) sel role (sort sel) possible d)
           (Some []) directions = Some ms"
    unfolding moves_def by (simp only: option.case ng if_False Let_def)
  have step: "I y" if d: "d \<in> set directions" and x: "I x"
    and y: "moves_dir (board g) sel role (sort sel) x d = Some y" for x d y
  proof -
    have "y = x \<or> (\<exists>m. y = x @ [m] \<and> (S m d \<or> P m d))"
      using moves_dir_Some[OF y, unfolded length_sort set_sort] unfolding S_def P_def by blast
    then show ?thesis
    proof
      assume "y = x"
      with x show ?thesis by simp
    next
      assume "\<exists>m. y = x @ [m] \<and> (S m d \<or> P m d)"
      then obtain m' where y': "y = x @ [m']" and m': "S m' d \<or> P m' d" by blast
      show ?thesis unfolding I_def y'
      proof
        fix n assume "n \<in> set (x @ [m'])"
        then have "n \<in> set x \<or> n = m'" by auto
        then show "\<exists>d\<in>set directions. S n d \<or> P n d"
          using x[unfolded I_def] d m' by blast
      qed
    qed
  qed
  have "I []" by (simp add: I_def)
  then have "I ms"
    by (rule foldl_option_invariant[where I = I, OF run]) (rule step; assumption)
  with assms(2) obtain d where d: "d \<in> set directions" and alt: "S m d \<or> P m d"
    unfolding I_def by blast
  from alt show thesis
  proof
    assume "S m d"
    then show thesis using simple[of d] d guard unfolding S_def by blast
  next
    assume "P m d"
    then obtain ps cur where "m = PushMove d (map (\<lambda>c. c + d) (sort sel)) ps None
             (if d > 0 then sort sel ! (length sel - 1) else sort sel ! 0)"
      "pushWalk (board g) role d [] ((if d > 0 then sort sel ! (length sel - 1) else sort sel ! 0) + d)
         = Some (ps, cur)"
      "0 < length ps" "length ps < length sel"
      "cur \<notin> CELL_SET \<or> board g cur = None"
      "\<forall>c\<in>set sel. c + d \<in> CELL_SET"
      unfolding P_def by blast
    then show thesis using push[of d ps cur] d guard by blast
  qed
qed

section \<open>Topology\<close>

lemma topo1: "length CELLS = 61 \<and> distinct CELLS \<and> concat standardRows = CELLS
   \<and> map length standardRows = [5, 6, 7, 8, 9, 8, 7, 6, 5]"
  by (simp add: CELLS_def standardRows_def)

lemma topo_card: "card CELL_SET = 61"
  using topo1 by (simp add: CELL_SET_def distinct_card)

lemma corners_eq: "corners = [15, 19, 51, 59, 91, 95]"
  by (simp add: corners_def standardRows_def)

lemma rim_eq: "rim = [15,16,17,18,19,91,92,93,94,95,15,24,33,42,51,61,71,81,91,19,29,39,49,59,68,77,86,95]"
  by (simp add: rim_def standardRows_def)

lemma edges_eq: "edges = [16, 17, 18, 92, 93, 94, 24, 33, 42, 61, 71, 81, 29, 39, 49, 68, 77, 86]"
  by (simp add: edges_def rim_eq corners_eq)

lemma interior_eq: "interior = [25,26,27,28, 34,35,36,37,38, 43,44,45,46,47,48, 52,53,54,55,56,57,58,
   62,63,64,65,66,67, 72,73,74,75,76, 82,83,84,85]"
  by (simp add: interior_def rim_eq CELLS_def)

lemma nb_corners: "\<forall>c\<in>set corners. length (getNeighbors c) = 3"
  by (simp add: corners_eq getNeighbors_def CELL_SET_def CELLS_def)

lemma nb_edges: "\<forall>c\<in>set edges. length (getNeighbors c) = 4"
  by (simp add: edges_eq getNeighbors_def CELL_SET_def CELLS_def)

lemma nb_interior: "\<forall>c\<in>set interior. length (getNeighbors c) = 6"
  by (simp add: interior_eq getNeighbors_def CELL_SET_def CELLS_def)

lemma partition_cells: "set corners \<union> set edges \<union> set interior = set CELLS"
  by (simp add: corners_eq edges_eq interior_eq CELLS_def) blast

text \<open>C8, as the code has it. The valid-cell set has exactly 61 members, arranged in rows of
  lengths 5, 6, 7, 8, 9, 8, 7, 6, 5. Every neighbour returned by \<open>getNeighbors\<close> is a valid
  cell, and every valid cell has between 3 and 6 neighbours: exactly 3 at the six corners,
  exactly 4 on the rest of the rim, exactly 6 in the interior. No cell has 2.\<close>

theorem board_topology:
  "length CELLS = 61 \<and> distinct CELLS \<and> card CELL_SET = 61
   \<and> concat standardRows = CELLS
   \<and> map length standardRows = [5, 6, 7, 8, 9, 8, 7, 6, 5]
   \<and> set corners \<union> set edges \<union> set interior = CELL_SET
   \<and> (\<forall>c. set (getNeighbors c) \<subseteq> CELL_SET)
   \<and> (\<forall>c\<in>CELL_SET. 3 \<le> length (getNeighbors c) \<and> length (getNeighbors c) \<le> 6)
   \<and> (\<forall>c\<in>set corners. length (getNeighbors c) = 3)
   \<and> (\<forall>c\<in>set edges. length (getNeighbors c) = 4)
   \<and> (\<forall>c\<in>set interior. length (getNeighbors c) = 6)"
proof -
  have part: "set corners \<union> set edges \<union> set interior = CELL_SET"
    using partition_cells by (simp add: CELL_SET_def)
  have sub: "\<forall>c. set (getNeighbors c) \<subseteq> CELL_SET"
    by (auto simp: getNeighbors_def)
  have range: "\<forall>c\<in>CELL_SET. 3 \<le> length (getNeighbors c) \<and> length (getNeighbors c) \<le> 6"
  proof
    fix c assume "c \<in> CELL_SET"
    with part have "c \<in> set corners \<or> c \<in> set edges \<or> c \<in> set interior" by blast
    then show "3 \<le> length (getNeighbors c) \<and> length (getNeighbors c) \<le> 6"
      using nb_corners nb_edges nb_interior by fastforce
  qed
  from topo1 topo_card part sub range nb_corners nb_edges nb_interior show ?thesis
    by blast
qed

theorem board_topology_witness:
  "15 \<in> set corners \<and> length (getNeighbors 15) = 3
   \<and> 16 \<in> set edges \<and> length (getNeighbors 16) = 4
   \<and> 55 \<in> set interior \<and> length (getNeighbors 55) = 6"
proof -
  have "(15::int) \<in> set corners" "(16::int) \<in> set edges" "(55::int) \<in> set interior"
    by (simp_all add: corners_eq edges_eq interior_eq)
  then show ?thesis using board_topology by blast
qed

text \<open>C8, as the specification states it, fails at the corner cell 15: its candidates
  14, 6 and 5 are no cells, and 16, 24 and 25 are, so it has three neighbours, not two.\<close>

theorem corner_neighbours_counterexample:
  "15 \<in> set corners \<and> getNeighbors 15 = [16, 24, 25] \<and> length (getNeighbors 15) \<noteq> 2"
  by (simp add: corners_eq getNeighbors_def CELL_SET_def CELLS_def)

section \<open>Winner and turn\<close>

text \<open>C6. After applying any move, by \<open>executeMove\<close> or by \<open>makeMove\<close>, the winner field is
  white if white's score after the move is at least 6, otherwise black if black's score is
  at least 6, otherwise none; white's threshold is tested first.\<close>

theorem win_threshold:
  "winner (executeMove gs sel role m) =
     (if 6 \<le> white (scores (executeMove gs sel role m)) then Some White
      else if 6 \<le> black (scores (executeMove gs sel role m)) then Some Black
      else None)
   \<and> winner (makeMove st m') =
     (if 6 \<le> white (scores (makeMove st m')) then Some White
      else if 6 \<le> black (scores (makeMove st m')) then Some Black
      else None)"
  by (simp add: winner_executeMove winner_makeMove newWinner_def)

theorem win_threshold_witness:
  "winner (executeMove (game_of rim_board \<lparr>white = 0, black = 5\<rparr>) [55, 56, 57] (Some Black)
             (PushMove 1 [56, 57, 58] [58, 59] None 57)) = Some Black
   \<and> winner (makeMove (component_of rim_board \<lparr>white = 6, black = 5\<rparr> [55, 56, 57])
             (PushMove 1 [56, 57, 58] [58, 59] (Some 60) 57)) = Some White"
proof -
  have "scores (executeMove (game_of rim_board \<lparr>white = 0, black = 5\<rparr>) [55, 56, 57] (Some Black)
          (PushMove 1 [56, 57, 58] [58, 59] None 57)) = \<lparr>white = 0, black = 6\<rparr>"
    by code_simp
  moreover have "scores (makeMove (component_of rim_board \<lparr>white = 6, black = 5\<rparr> [55, 56, 57])
          (PushMove 1 [56, 57, 58] [58, 59] (Some 60) 57)) = \<lparr>white = 6, black = 6\<rparr>"
    by code_simp
  ultimately show ?thesis
    using win_threshold[of "game_of rim_board \<lparr>white = 0, black = 5\<rparr>" "[55, 56, 57]" "Some Black"
        "PushMove 1 [56, 57, 58] [58, 59] None 57"
        "component_of rim_board \<lparr>white = 6, black = 5\<rparr> [55, 56, 57]"
        "PushMove 1 [56, 57, 58] [58, 59] (Some 60) 57"]
    by simp
qed




section \<open>Moves enumerated by \<open>getPossibleMoves\<close>\<close>

lemma getPossibleMoves_dir_returns:
  assumes "d \<noteq> 0"
  shows "\<exists>y. getPossibleMoves_dir st srt mvs d = Some y"
proof -
  from pushWalk_returns[OF assms] obtain r where
    "pushWalk (board st) (playerRole st) d []
       ((if d > 0 then srt ! (length srt - 1) else srt ! 0) + d) = Some r"
    by blast
  then show ?thesis
    by (cases r) (simp add: getPossibleMoves_dir_def Let_def)
qed

lemma getPossibleMoves_returns: "\<exists>ms. getPossibleMoves st = Some ms"
proof (cases "length (selected st) = 0")
  case True
  then show ?thesis by (simp add: getPossibleMoves_def)
next
  case False
  have "\<exists>r. foldl (\<lambda>acc d. case acc of None \<Rightarrow> None
             | Some mvs \<Rightarrow> getPossibleMoves_dir st (sort (selected st)) mvs d)
           (Some []) directions = Some r"
    by (rule foldl_option_returns) (simp add: getPossibleMoves_dir_returns directions_nonzero)
  with False show ?thesis by (simp add: getPossibleMoves_def Let_def)
qed

lemma getPossibleMoves_dir_Some:
  assumes "getPossibleMoves_dir st srt mvs d = Some mvs'"
  shows "mvs' = mvs
    \<or> (mvs' = mvs @ [SimpleMove d (map (\<lambda>c. c + d) srt)]
        \<and> (\<forall>c\<in>set srt. c + d \<in> CELL_SET
              \<and> (board st (c + d) = None \<or> c + d \<in> set (selected st))))
    \<or> (\<exists>ps cur. mvs' = mvs @ [PushMove d (map (\<lambda>c. c + d) srt) ps (Some cur)
                                           (if d > 0 then srt ! (length srt - 1) else srt ! 0)]
        \<and> pushWalk (board st) (playerRole st) d []
              ((if d > 0 then srt ! (length srt - 1) else srt ! 0) + d) = Some (ps, cur)
        \<and> 0 < length ps \<and> length ps < length (selected st)
        \<and> (cur \<notin> CELL_SET \<or> board st cur = None)
        \<and> (\<forall>c\<in>set srt. c + d \<in> CELL_SET))"
  using assms
  by (auto simp: getPossibleMoves_dir_def Let_def list_all_iff
      split: if_splits option.splits prod.splits)

lemma getPossibleMoves_elem:
  assumes "getPossibleMoves st = Some ms" and "m \<in> set ms"
  obtains (simple) d where "d \<in> set directions" "selected st \<noteq> []"
      "m = SimpleMove d (map (\<lambda>c. c + d) (sort (selected st)))"
      "\<forall>c\<in>set (selected st). c + d \<in> CELL_SET
          \<and> (board st (c + d) = None \<or> c + d \<in> set (selected st))"
  | (push) d ps cur where "d \<in> set directions" "selected st \<noteq> []"
      "m = PushMove d (map (\<lambda>c. c + d) (sort (selected st))) ps (Some cur)
             (if d > 0 then sort (selected st) ! (length (selected st) - 1)
              else sort (selected st) ! 0)"
      "pushWalk (board st) (playerRole st) d []
          ((if d > 0 then sort (selected st) ! (length (selected st) - 1)
            else sort (selected st) ! 0) + d) = Some (ps, cur)"
      "0 < length ps" "length ps < length (selected st)"
      "cur \<notin> CELL_SET \<or> board st cur = None"
      "\<forall>c\<in>set (selected st). c + d \<in> CELL_SET"
proof -
  define sel where "sel = selected st"
  define S where "S = (\<lambda>m d. m = SimpleMove d (map (\<lambda>c. c + d) (sort sel))
      \<and> (\<forall>c\<in>set sel. c + d \<in> CELL_SET \<and> (board st (c + d) = None \<or> c + d \<in> set sel)))"
  define P where "P = (\<lambda>m d. \<exists>ps cur. m = PushMove d (map (\<lambda>c. c + d) (sort sel)) ps (Some cur)
             (if d > 0 then sort sel ! (length sel - 1) else sort sel ! 0)
      \<and> pushWalk (board st) (playerRole st) d []
           ((if d > 0 then sort sel ! (length sel - 1) else sort sel ! 0) + d) = Some (ps, cur)
      \<and> 0 < length ps \<and> length ps < length sel
      \<and> (cur \<notin> CELL_SET \<or> board st cur = None)
      \<and> (\<forall>c\<in>set sel. c + d \<in> CELL_SET))"
  define I where "I = (\<lambda>xs. \<forall>m\<in>set xs. \<exists>d\<in>set directions. S m d \<or> P m d)"
  from assms have ng: "\<not> length (selected st) = 0"
    by (auto simp: getPossibleMoves_def split: if_splits)
  then have guard: "sel \<noteq> []"
    by (simp add: sel_def)
  from assms(1) have run: "foldl (\<lambda>acc d. case acc of None \<Rightarrow> None
             | Some mvs \<Rightarrow> getPossibleMoves_dir st (sort sel) mvs d)
           (Some []) directions = Some ms"
    unfolding getPossibleMoves_def sel_def by (simp only: ng if_False Let_def)
  have step: "I y" if d: "d \<in> set directions" and x: "I x"
    and y: "getPossibleMoves_dir st (sort sel) x d = Some y" for x d y
  proof -
    have "y = x \<or> (\<exists>m. y = x @ [m] \<and> (S m d \<or> P m d))"
      using getPossibleMoves_dir_Some[OF y, unfolded length_sort set_sort]
      unfolding S_def P_def sel_def by blast
    then show ?thesis
    proof
      assume "y = x"
      with x show ?thesis by simp
    next
      assume "\<exists>m. y = x @ [m] \<and> (S m d \<or> P m d)"
      then obtain m' where y': "y = x @ [m']" and m': "S m' d \<or> P m' d" by blast
      show ?thesis unfolding I_def y'
      proof
        fix n assume "n \<in> set (x @ [m'])"
        then have "n \<in> set x \<or> n = m'" by auto
        then show "\<exists>d\<in>set directions. S n d \<or> P n d"
          using x[unfolded I_def] d m' by blast
      qed
    qed
  qed
  have "I []" by (simp add: I_def)
  then have "I ms"
    by (rule foldl_option_invariant[where I = I, OF run]) (rule step; assumption)
  with assms(2) obtain d where d: "d \<in> set directions" and alt: "S m d \<or> P m d"
    unfolding I_def by blast
  from alt show thesis
  proof
    assume "S m d"
    then show thesis using simple[of d] d guard unfolding S_def sel_def by blast
  next
    assume "P m d"
    then obtain ps cur where "m = PushMove d (map (\<lambda>c. c + d) (sort sel)) ps (Some cur)
             (if d > 0 then sort sel ! (length sel - 1) else sort sel ! 0)"
      "pushWalk (board st) (playerRole st) d []
           ((if d > 0 then sort sel ! (length sel - 1) else sort sel ! 0) + d) = Some (ps, cur)"
      "0 < length ps" "length ps < length sel"
      "cur \<notin> CELL_SET \<or> board st cur = None"
      "\<forall>c\<in>set sel. c + d \<in> CELL_SET"
      unfolding P_def by blast
    then show thesis using push[of d ps cur] d guard unfolding sel_def by blast
  qed
qed

section \<open>Properties of the enumerated moves\<close>

text \<open>C1. For every game state, player and selection, both enumerations return, and every
  push move in the returned list has strictly fewer pushed cells than the selection has
  members; no push with as many or more pushed cells is returned.\<close>

theorem push_outnumbering:
  "(\<exists>ms. moves gs sel role = Some ms
         \<and> (\<forall>m\<in>set ms. is_push m \<longrightarrow> length (pushed m) < length sel))
   \<and> (\<exists>ms. getPossibleMoves st = Some ms
         \<and> (\<forall>m\<in>set ms. is_push m \<longrightarrow> length (pushed m) < length (selected st)))"
proof
  from moves_returns obtain ms where ms: "moves gs sel role = Some ms" by blast
  have "length (pushed m) < length sel" if "m \<in> set ms" "is_push m" for m
  proof (cases gs)
    case None
    with ms that show ?thesis by (simp add: moves_def)
  next
    case (Some g)
    from ms[unfolded Some] that(1) show ?thesis
    proof (cases rule: moves_elem)
      case (simple d)
      with that(2) show ?thesis by simp
    next
      case (push d ps cur)
      then show ?thesis by simp
    qed
  qed
  with ms show "\<exists>ms. moves gs sel role = Some ms
         \<and> (\<forall>m\<in>set ms. is_push m \<longrightarrow> length (pushed m) < length sel)"
    by blast
next
  from getPossibleMoves_returns obtain ms where ms: "getPossibleMoves st = Some ms" by blast
  have "length (pushed m) < length (selected st)" if "m \<in> set ms" "is_push m" for m
    using ms that(1)
  proof (cases rule: getPossibleMoves_elem)
    case (simple d)
    with that(2) show ?thesis by simp
  next
    case (push d ps cur)
    then show ?thesis by simp
  qed
  with ms show "\<exists>ms. getPossibleMoves st = Some ms
         \<and> (\<forall>m\<in>set ms. is_push m \<longrightarrow> length (pushed m) < length (selected st))"
    by blast
qed

theorem push_outnumbering_witness:
  "PushMove 1 [56, 57, 58] [58, 59] None 57
      \<in> set (the (moves (Some (game_of rim_board \<lparr>white = 0, black = 0\<rparr>)) [55, 56, 57] (Some Black)))
   \<and> length [58, 59 :: int] < length [55, 56, 57 :: int]
   \<and> PushMove 1 [56, 57, 58] [58, 59] (Some 60) 57
      \<in> set (the (getPossibleMoves (component_of rim_board \<lparr>white = 0, black = 0\<rparr> [55, 56, 57])))"
proof -
  have a: "moves (Some (game_of rim_board \<lparr>white = 0, black = 0\<rparr>)) [55, 56, 57] (Some Black) =
    Some [PushMove 1 [56, 57, 58] [58, 59] None 57,
          SimpleMove (- 1) [54, 55, 56], SimpleMove 9 [64, 65, 66], SimpleMove (- 9) [46, 47, 48],
          SimpleMove 10 [65, 66, 67], SimpleMove (- 10) [45, 46, 47]]"
    by code_simp
  have b: "getPossibleMoves (component_of rim_board \<lparr>white = 0, black = 0\<rparr> [55, 56, 57]) =
    Some [PushMove 1 [56, 57, 58] [58, 59] (Some 60) 57,
          SimpleMove (- 1) [54, 55, 56], SimpleMove 9 [64, 65, 66], SimpleMove (- 9) [46, 47, 48],
          SimpleMove 10 [65, 66, 67], SimpleMove (- 10) [45, 46, 47]]"
    by code_simp
  have sel: "selected (component_of rim_board \<lparr>white = 0, black = 0\<rparr> [55, 56, 57]) = [55, 56, 57]"
    by (simp add: component_of_def)
  from push_outnumbering[of "Some (game_of rim_board \<lparr>white = 0, black = 0\<rparr>)" "[55, 56, 57]"
      "Some Black" "component_of rim_board \<lparr>white = 0, black = 0\<rparr> [55, 56, 57]"]
  show ?thesis unfolding a b sel by simp
qed

text \<open>C4. Every simple move returned by either enumeration has all of its target cells in the
  valid-cell set, and each target cell is, on the board before the move, empty or a member of
  the selection.\<close>

theorem simple_move_targets:
  "(\<exists>ms. moves (Some g) sel role = Some ms
         \<and> (\<forall>m\<in>set ms. is_move m \<longrightarrow>
               (\<forall>c\<in>set (cells m). c \<in> CELL_SET \<and> (board g c = None \<or> c \<in> set sel))))
   \<and> (\<exists>ms. getPossibleMoves st = Some ms
         \<and> (\<forall>m\<in>set ms. is_move m \<longrightarrow>
               (\<forall>c\<in>set (cells m). c \<in> CELL_SET
                   \<and> (board st c = None \<or> c \<in> set (selected st)))))"
proof
  from moves_returns obtain ms where ms: "moves (Some g) sel role = Some ms" by blast
  have "\<forall>c\<in>set (cells m). c \<in> CELL_SET \<and> (board g c = None \<or> c \<in> set sel)"
    if "m \<in> set ms" "is_move m" for m
    using ms that(1)
  proof (cases rule: moves_elem)
    case (simple d)
    then show ?thesis by auto
  next
    case (push d ps cur)
    with that(2) show ?thesis by simp
  qed
  with ms show "\<exists>ms. moves (Some g) sel role = Some ms
         \<and> (\<forall>m\<in>set ms. is_move m \<longrightarrow>
               (\<forall>c\<in>set (cells m). c \<in> CELL_SET \<and> (board g c = None \<or> c \<in> set sel)))"
    by blast
next
  from getPossibleMoves_returns obtain ms where ms: "getPossibleMoves st = Some ms" by blast
  have "\<forall>c\<in>set (cells m). c \<in> CELL_SET \<and> (board st c = None \<or> c \<in> set (selected st))"
    if "m \<in> set ms" "is_move m" for m
    using ms that(1)
  proof (cases rule: getPossibleMoves_elem)
    case (simple d)
    then show ?thesis by auto
  next
    case (push d ps cur)
    with that(2) show ?thesis by simp
  qed
  with ms show "\<exists>ms. getPossibleMoves st = Some ms
         \<and> (\<forall>m\<in>set ms. is_move m \<longrightarrow>
               (\<forall>c\<in>set (cells m). c \<in> CELL_SET
                   \<and> (board st c = None \<or> c \<in> set (selected st))))"
    by blast
qed

theorem simple_move_targets_witness:
  "SimpleMove (- 1) [54, 55, 56]
      \<in> set (the (moves (Some (game_of rim_board \<lparr>white = 0, black = 0\<rparr>)) [55, 56, 57] (Some Black)))
   \<and> 54 \<in> CELL_SET \<and> board (game_of rim_board \<lparr>white = 0, black = 0\<rparr>) 54 = None
   \<and> 55 \<in> CELL_SET \<and> 55 \<in> set [55, 56, 57 :: int]
   \<and> SimpleMove (- 1) [54, 55, 56]
      \<in> set (the (getPossibleMoves (component_of rim_board \<lparr>white = 0, black = 0\<rparr> [55, 56, 57])))"
proof -
  have a: "moves (Some (game_of rim_board \<lparr>white = 0, black = 0\<rparr>)) [55, 56, 57] (Some Black) =
    Some [PushMove 1 [56, 57, 58] [58, 59] None 57,
          SimpleMove (- 1) [54, 55, 56], SimpleMove 9 [64, 65, 66], SimpleMove (- 9) [46, 47, 48],
          SimpleMove 10 [65, 66, 67], SimpleMove (- 10) [45, 46, 47]]"
    by code_simp
  have b: "getPossibleMoves (component_of rim_board \<lparr>white = 0, black = 0\<rparr> [55, 56, 57]) =
    Some [PushMove 1 [56, 57, 58] [58, 59] (Some 60) 57,
          SimpleMove (- 1) [54, 55, 56], SimpleMove 9 [64, 65, 66], SimpleMove (- 9) [46, 47, 48],
          SimpleMove 10 [65, 66, 67], SimpleMove (- 10) [45, 46, 47]]"
    by code_simp
  have c: "board (game_of rim_board \<lparr>white = 0, black = 0\<rparr>) 54 = None"
    by (simp add: game_of_def rim_board_def)
  from simple_move_targets[of "game_of rim_board \<lparr>white = 0, black = 0\<rparr>" "[55, 56, 57]"
      "Some Black" "component_of rim_board \<lparr>white = 0, black = 0\<rparr> [55, 56, 57]"]
  show ?thesis unfolding a b using c by simp
qed

section \<open>The board and the scores after a move\<close>

lemma foldl_delete_apply:
  "foldl (\<lambda>b c. b(c := None)) b xs x = (if x \<in> set xs then None else b x)"
  by (induction xs arbitrary: b) auto

lemma foldl_write_apply:
  "foldl (\<lambda>b c. b(c := v)) b xs x = (if x \<in> set xs then v else b x)"
  by (induction xs arbitrary: b) auto

lemma executeMove_pushed_dom:
  "dom (fst (foldl (executeMove_pushed role d) (b, s) ps)) \<subseteq> dom b \<union> CELL_SET"
proof (induction ps arbitrary: b s)
  case Nil
  then show ?case by simp
next
  case (Cons c ps)
  show ?case
  proof (cases "c + d \<in> CELL_SET")
    case True
    have "dom (fst (foldl (executeMove_pushed role d) ((b(c := None))(c + d \<mapsto> opponent role), s) ps))
            \<subseteq> dom ((b(c := None))(c + d \<mapsto> opponent role)) \<union> CELL_SET"
      by (rule Cons.IH)
    with True show ?thesis by (auto simp: Let_def)
  next
    case False
    have "dom (fst (foldl (executeMove_pushed role d) (b(c := None), increment role s) ps))
            \<subseteq> dom (b(c := None)) \<union> CELL_SET"
      by (rule Cons.IH)
    with False show ?thesis by (auto simp: Let_def)
  qed
qed

lemma makeMove_pushed_apply:
  "fst (foldl (makeMove_pushed role d) acc ps) x =
     (if x \<in> CELL_SET \<and> x - d \<in> set ps then Some (opponent role) else fst acc x)"
proof (induction ps arbitrary: acc)
  case Nil
  then show ?case by simp
next
  case (Cons c ps)
  obtain b s where acc: "acc = (b, s)" by (cases acc)
  have one: "fst (makeMove_pushed role d acc c) x =
      (if x \<in> CELL_SET \<and> x = c + d then Some (opponent role) else b x)"
    by (auto simp: acc Let_def)
  have "x - d = c \<longleftrightarrow> x = c + d" by auto
  then show ?case
    unfolding foldl_Cons Cons.IH[of "makeMove_pushed role d acc c"] one
    by (auto simp: acc)
qed

lemma executeMove_pushed_scores:
  "snd (foldl (executeMove_pushed role d) acc ps) =
     (increment role ^^ length (filter (\<lambda>c. c + d \<notin> CELL_SET) ps)) (snd acc)"
proof (induction ps arbitrary: acc)
  case Nil
  then show ?case by simp
next
  case (Cons c ps)
  obtain b s where acc: "acc = (b, s)" by (cases acc)
  have one: "snd (executeMove_pushed role d acc c) =
      (if c + d \<in> CELL_SET then s else increment role s)"
    by (simp add: acc Let_def)
  show ?case
    unfolding foldl_Cons Cons.IH[of "executeMove_pushed role d acc c"] one
    by (simp add: acc funpow_swap1)
qed

lemma makeMove_pushed_scores:
  "snd (foldl (makeMove_pushed role d) acc ps) =
     (increment role ^^ length (filter (\<lambda>c. c + d \<notin> CELL_SET) ps)) (snd acc)"
proof (induction ps arbitrary: acc)
  case Nil
  then show ?case by simp
next
  case (Cons c ps)
  obtain b s where acc: "acc = (b, s)" by (cases acc)
  have one: "snd (makeMove_pushed role d acc c) =
      (if c + d \<in> CELL_SET then s else increment role s)"
    by (simp add: acc Let_def)
  show ?case
    unfolding foldl_Cons Cons.IH[of "makeMove_pushed role d acc c"] one
    by (simp add: acc funpow_swap1)
qed

lemma board_executeMove_dom:
  assumes "dom (board g) \<subseteq> CELL_SET" and "set (cells m) \<subseteq> CELL_SET"
  shows "dom (board (executeMove g sel role m)) \<subseteq> CELL_SET"
proof
  fix x assume "x \<in> dom (board (executeMove g sel role m))"
  then have nz: "board (executeMove g sel role m) x \<noteq> None" by auto
  show "x \<in> CELL_SET"
  proof (cases "x \<in> set (cells m)")
    case True
    with assms(2) show ?thesis by blast
  next
    case False
    with nz have pre: "x \<in> dom (fst (case m of
                  PushMove d cs ps pt tc \<Rightarrow> foldl (executeMove_pushed role d) (board g, scores g) ps
                | SimpleMove d cs \<Rightarrow> (board g, scores g)))"
      by (auto simp: board_executeMove foldl_write_apply foldl_delete_apply split: if_splits)
    have "x \<in> dom (board g) \<union> CELL_SET"
    proof (cases m)
      case (SimpleMove d cs)
      with pre show ?thesis by simp
    next
      case (PushMove d cs ps pt tc)
      with pre have "x \<in> dom (fst (foldl (executeMove_pushed role d) (board g, scores g) ps))"
        by simp
      with executeMove_pushed_dom[of role d "board g" "scores g" ps] show ?thesis by blast
    qed
    with assms(1) show ?thesis by blast
  qed
qed

lemma board_makeMove_dom:
  assumes "dom (board st) \<subseteq> CELL_SET" and "set (cells m) \<subseteq> CELL_SET"
  shows "dom (board (makeMove st m)) \<subseteq> CELL_SET"
proof
  fix x assume "x \<in> dom (board (makeMove st m))"
  then have nz: "board (makeMove st m) x \<noteq> None" by auto
  show "x \<in> CELL_SET"
  proof (cases "x \<in> set (cells m)")
    case True
    with assms(2) show ?thesis by blast
  next
    case False
    with nz have "fst (case m of
                  PushMove d cs ps pt tc \<Rightarrow>
                    foldl (makeMove_pushed (playerRole st) d)
                      (foldl (\<lambda>b c. b(c := None)) (board st) ps, scores st) ps
                | SimpleMove d cs \<Rightarrow> (board st, scores st)) x \<noteq> None"
      by (auto simp: board_makeMove foldl_write_apply foldl_delete_apply split: if_splits)
    then have "x \<in> dom (board st) \<union> CELL_SET"
      by (cases m) (auto simp: makeMove_pushed_apply foldl_delete_apply split: if_splits)
    with assms(1) show ?thesis by blast
  qed
qed

text \<open>C10. When every key of the board is a valid cell, every move returned by the enumeration
  leaves a board whose keys are all valid cells, for simple moves and pushes alike; this holds
  for \<open>moves\<close> with \<open>executeMove\<close> and for \<open>getPossibleMoves\<close> with \<open>makeMove\<close>.\<close>

theorem valid_keys_preserved:
  "(dom (board g) \<subseteq> CELL_SET \<longrightarrow>
      (\<exists>ms. moves (Some g) sel role = Some ms
           \<and> (\<forall>m\<in>set ms. dom (board (executeMove g sel role m)) \<subseteq> CELL_SET)))
   \<and> (dom (board st) \<subseteq> CELL_SET \<longrightarrow>
      (\<exists>ms. getPossibleMoves st = Some ms
           \<and> (\<forall>m\<in>set ms. dom (board (makeMove st m)) \<subseteq> CELL_SET)))"
proof (intro conjI impI)
  assume valid: "dom (board g) \<subseteq> CELL_SET"
  from moves_returns obtain ms where ms: "moves (Some g) sel role = Some ms" by blast
  have "dom (board (executeMove g sel role m)) \<subseteq> CELL_SET" if "m \<in> set ms" for m
  proof -
    from ms that have "set (cells m) \<subseteq> CELL_SET"
      by (cases rule: moves_elem) auto
    with valid show ?thesis by (rule board_executeMove_dom)
  qed
  with ms show "\<exists>ms. moves (Some g) sel role = Some ms
           \<and> (\<forall>m\<in>set ms. dom (board (executeMove g sel role m)) \<subseteq> CELL_SET)"
    by blast
next
  assume valid: "dom (board st) \<subseteq> CELL_SET"
  from getPossibleMoves_returns obtain ms where ms: "getPossibleMoves st = Some ms" by blast
  have "dom (board (makeMove st m)) \<subseteq> CELL_SET" if "m \<in> set ms" for m
  proof -
    from ms that have "set (cells m) \<subseteq> CELL_SET"
      by (cases rule: getPossibleMoves_elem) auto
    with valid show ?thesis by (rule board_makeMove_dom)
  qed
  with ms show "\<exists>ms. getPossibleMoves st = Some ms
           \<and> (\<forall>m\<in>set ms. dom (board (makeMove st m)) \<subseteq> CELL_SET)"
    by blast
qed

theorem valid_keys_preserved_witness:
  "dom (board (game_of inside_board \<lparr>white = 0, black = 0\<rparr>)) \<subseteq> CELL_SET
   \<and> dom (board (executeMove (game_of inside_board \<lparr>white = 0, black = 0\<rparr>) [54, 55, 56] (Some Black)
        (PushMove 1 [55, 56, 57] [57, 58] None 56))) \<subseteq> CELL_SET
   \<and> dom (board (component_of rim_board \<lparr>white = 0, black = 0\<rparr> [55, 56, 57])) \<subseteq> CELL_SET
   \<and> dom (board (makeMove (component_of rim_board \<lparr>white = 0, black = 0\<rparr> [55, 56, 57])
        (PushMove 1 [56, 57, 58] [58, 59] (Some 60) 57))) \<subseteq> CELL_SET"
proof -
  have v1: "dom (board (game_of inside_board \<lparr>white = 0, black = 0\<rparr>)) \<subseteq> CELL_SET"
    by (simp add: game_of_def inside_board_def CELL_SET_def CELLS_def)
  have v2: "dom (board (component_of rim_board \<lparr>white = 0, black = 0\<rparr> [55, 56, 57])) \<subseteq> CELL_SET"
    by (simp add: component_of_def rim_board_def CELL_SET_def CELLS_def)
  have a: "moves (Some (game_of inside_board \<lparr>white = 0, black = 0\<rparr>)) [54, 55, 56] (Some Black) =
    Some [PushMove 1 [55, 56, 57] [57, 58] None 56,
          SimpleMove (- 1) [53, 54, 55], SimpleMove 9 [63, 64, 65], SimpleMove (- 9) [45, 46, 47],
          SimpleMove 10 [64, 65, 66], SimpleMove (- 10) [44, 45, 46]]"
    by code_simp
  have b: "getPossibleMoves (component_of rim_board \<lparr>white = 0, black = 0\<rparr> [55, 56, 57]) =
    Some [PushMove 1 [56, 57, 58] [58, 59] (Some 60) 57,
          SimpleMove (- 1) [54, 55, 56], SimpleMove 9 [64, 65, 66], SimpleMove (- 9) [46, 47, 48],
          SimpleMove 10 [65, 66, 67], SimpleMove (- 10) [45, 46, 47]]"
    by code_simp
  from valid_keys_preserved[of "game_of inside_board \<lparr>white = 0, black = 0\<rparr>" "[54, 55, 56]"
      "Some Black" "component_of rim_board \<lparr>white = 0, black = 0\<rparr> [55, 56, 57]"] v1 v2
  show ?thesis unfolding a b by simp
qed

section \<open>The geometry of a push\<close>

lemma sort_bounds:
  assumes "s \<in> set sel"
  shows "sort sel ! 0 \<le> s \<and> s \<le> sort sel ! (length sel - 1)"
proof -
  from assms have "s \<in> set (sort sel)" by simp
  then obtain i where i: "i < length (sort sel)" "sort sel ! i = s"
    by (metis in_set_conv_nth)
  have srt: "sorted (sort sel)" by simp
  from i have "sort sel ! 0 \<le> sort sel ! i"
    by (intro sorted_nth_mono[OF srt]) simp_all
  moreover from i have "sort sel ! i \<le> sort sel ! (length sel - 1)"
    by (intro sorted_nth_mono[OF srt]) simp_all
  ultimately show ?thesis using i(2) by simp
qed

lemma walk_cells:
  assumes "pushWalk brd role d [] a = Some (ps, cur)"
  shows "ps = map (\<lambda>i. a + int i * d) [0..<length ps]
       \<and> cur = a + int (length ps) * d
       \<and> (\<forall>i<length ps. a + int i * d \<in> CELL_SET)"
proof -
  from pushWalk_run[OF assms] obtain k where
    r: "(ps, cur) = ([] @ map (\<lambda>i. a + int i * d) [0..<k], a + int k * d)"
    and mid: "\<forall>i<k. a + int i * d \<in> CELL_SET \<and> brd (a + int i * d) \<noteq> None
                \<and> brd (a + int i * d) \<noteq> role"
    by blast
  from r have ps: "ps = map (\<lambda>i. a + int i * d) [0..<k]" and cur: "cur = a + int k * d"
    by simp_all
  from ps have k: "length ps = k" by simp
  from ps cur mid show ?thesis unfolding k by blast
qed

lemma run_filter:
  assumes "\<forall>i<k. a + int i * d \<in> CELL_SET"
  shows "filter (\<lambda>c. c + d \<notin> CELL_SET) (map (\<lambda>i. a + int i * d) [0..<k]) =
           (if k = 0 \<or> a + int k * d \<in> CELL_SET then [] else [a + int (k - 1) * d])"
  using assms
proof (induction k)
  case 0
  then show ?case by simp
next
  case (Suc k)
  then have inner: "a + int k * d \<in> CELL_SET" by simp
  from Suc have "filter (\<lambda>c. c + d \<notin> CELL_SET) (map (\<lambda>i. a + int i * d) [0..<k]) = []"
    using inner by simp
  moreover have "a + int k * d + d = a + int (Suc k) * d"
    by (simp add: algebra_simps)
  ultimately show ?case by (simp add: algebra_simps)
qed

lemma executeMove_pushed_last:
  assumes "ps \<noteq> []" and "last ps + d \<in> CELL_SET"
  shows "fst (foldl (executeMove_pushed role d) acc ps) (last ps + d) = Some (opponent role)"
proof -
  obtain b s where acc': "foldl (executeMove_pushed role d) acc (butlast ps) = (b, s)"
    by (cases "foldl (executeMove_pushed role d) acc (butlast ps)")
  from assms(1) have "ps = butlast ps @ [last ps]" by simp
  then have "foldl (executeMove_pushed role d) acc ps =
      executeMove_pushed role d (foldl (executeMove_pushed role d) acc (butlast ps)) (last ps)"
    by (metis foldl_append foldl_Cons foldl_Nil)
  with assms(2) show ?thesis by (simp add: acc' Let_def)
qed

lemma beyond_up:
  assumes "0 < d" and "0 < k"
  shows "d \<le> int k * d"
  using assms mult_right_mono[of 1 "int k" d] by simp

lemma far_not_touched:
  assumes d: "d \<noteq> 0" and k: "0 < k"
    and far: "far = (if d > 0 then sort sel ! (length sel - 1) else sort sel ! 0) + d + int k * d"
  shows "far \<notin> set sel \<and> far \<notin> set (map (\<lambda>c. c + d) (sort sel))"
proof (cases "0 < d")
  case True
  from beyond_up[OF True k] have step: "d \<le> int k * d" .
  from far True have far': "far = sort sel ! (length sel - 1) + d + int k * d" by simp
  have "s < far \<and> s + d < far" if "s \<in> set sel" for s
    using sort_bounds[OF that] far' True step by linarith
  then show ?thesis by auto
next
  case False
  with d have neg: "d < 0" by simp
  from beyond_up[of "- d" k] neg k have step: "int k * d \<le> d" by simp
  from far neg have far': "far = sort sel ! 0 + d + int k * d" by simp
  have "far < s \<and> far < s + d" if "s \<in> set sel" for s
    using sort_bounds[OF that] far' neg step by linarith
  then show ?thesis by auto
qed

lemma walk_last:
  assumes "pushWalk brd role d [] a = Some (ps, cur)" and "0 < length ps"
  shows "last ps + d = cur"
proof -
  from walk_cells[OF assms(1)] have ps: "ps = map (\<lambda>i. a + int i * d) [0..<length ps]"
    and cur: "cur = a + int (length ps) * d" by simp_all
  from assms(2) have ne: "ps \<noteq> []" by auto
  from assms(2) obtain n where n: "length ps = Suc n" by (cases "length ps") auto
  have "last ps = ps ! n" using ne n by (simp add: last_conv_nth)
  also have "\<dots> = a + int n * d"
    using n by (subst ps) (simp add: nth_append)
  finally have "last ps + d = a + int (Suc n) * d" by (simp add: algebra_simps)
  then show ?thesis using cur n by simp
qed

lemma walk_ejected:
  assumes "pushWalk brd role d [] a = Some (ps, cur)" and "0 < length ps"
  shows "length (filter (\<lambda>c. c + d \<notin> CELL_SET) ps) = (if cur \<in> CELL_SET then 0 else 1)"
proof -
  from walk_cells[OF assms(1)] have ps: "ps = map (\<lambda>i. a + int i * d) [0..<length ps]"
    and cur: "cur = a + int (length ps) * d"
    and mid: "\<forall>i<length ps. a + int i * d \<in> CELL_SET" by simp_all
  have "filter (\<lambda>c. c + d \<notin> CELL_SET) ps =
      filter (\<lambda>c. c + d \<notin> CELL_SET) (map (\<lambda>i. a + int i * d) [0..<length ps])"
    using ps by simp
  also have "\<dots> = (if length ps = 0 \<or> a + int (length ps) * d \<in> CELL_SET then []
                   else [a + int (length ps - 1) * d])"
    by (rule run_filter[OF mid])
  finally show ?thesis using assms(2) cur by simp
qed

text \<open>C3, as the code has it. For every push move returned by \<open>moves\<close> and applied by
  \<open>executeMove\<close>: when the far cell (the cell after the last pushed one) is off the board,
  the mover's score grows by exactly one, whatever the number of pushed stones, and the other
  score is unchanged; when the far cell is on the board, both scores are unchanged and the far
  cell holds the opponent's colour after the move.\<close>

theorem push_score_conservation:
  assumes "moves (Some g) sel role = Some ms" and "m \<in> set ms" and "is_push m"
  shows "(last (pushed m) + dir m \<notin> CELL_SET \<longrightarrow>
            white (scores (executeMove g sel role m)) =
              white (scores g) + (if currentTurn g = White then 1 else 0)
          \<and> black (scores (executeMove g sel role m)) =
              black (scores g) + (if currentTurn g = Black then 1 else 0))
       \<and> (last (pushed m) + dir m \<in> CELL_SET \<longrightarrow>
            scores (executeMove g sel role m) = scores g
          \<and> board (executeMove g sel role m) (last (pushed m) + dir m) =
              Some (case currentTurn g of Black \<Rightarrow> White | White \<Rightarrow> Black))"
  using assms(1,2)
proof (cases rule: moves_elem)
  case (simple d)
  with assms(3) show ?thesis by simp
next
  case (push d ps cur)
  define f where "f = (if d > 0 then sort sel ! (length sel - 1) else sort sel ! 0)"
  from push(4) have m: "m = PushMove d (map (\<lambda>c. c + d) (sort sel)) ps None f"
    by (simp add: f_def)
  from push(5) have walk: "pushWalk (board g) role d [] (f + d) = Some (ps, cur)"
    by (simp add: f_def)
  have far: "last ps + d = cur" by (rule walk_last[OF walk push(6)])
  have sc: "scores (executeMove g sel role m) =
      (increment role ^^ (if cur \<in> CELL_SET then 0 else 1)) (scores g)"
    by (simp add: scores_executeMove m executeMove_pushed_scores walk_ejected[OF walk push(6)])
  have out: "white (scores (executeMove g sel role m)) =
              white (scores g) + (if currentTurn g = White then 1 else 0)
          \<and> black (scores (executeMove g sel role m)) =
              black (scores g) + (if currentTurn g = Black then 1 else 0)"
    if "cur \<notin> CELL_SET"
    using that sc push(3) by (cases "currentTurn g") (simp_all add: increment_def)
  have inside: "scores (executeMove g sel role m) = scores g
      \<and> board (executeMove g sel role m) cur =
          Some (case currentTurn g of Black \<Rightarrow> White | White \<Rightarrow> Black)"
    if "cur \<in> CELL_SET"
  proof
    from that sc show "scores (executeMove g sel role m) = scores g" by simp
    from walk_cells[OF walk] have "cur = f + d + int (length ps) * d" by simp
    with far_not_touched[OF directions_nonzero[OF push(1)] push(6), of cur sel]
    have untouched: "cur \<notin> set sel" "cur \<notin> set (map (\<lambda>c. c + d) (sort sel))"
      by (simp_all add: f_def)
    from push(6) have ne: "ps \<noteq> []" by auto
    from that far have "last ps + d \<in> CELL_SET" by simp
    from executeMove_pushed_last[OF ne this, of role "(board g, scores g)"] far
    have "fst (foldl (executeMove_pushed role d) (board g, scores g) ps) cur = Some (opponent role)"
      by simp
    with untouched have "board (executeMove g sel role m) cur = Some (opponent role)"
      by (simp add: board_executeMove m foldl_write_apply foldl_delete_apply)
    with push(3) show "board (executeMove g sel role m) cur =
          Some (case currentTurn g of Black \<Rightarrow> White | White \<Rightarrow> Black)"
      by (cases "currentTurn g") (simp_all add: opponent_def)
  qed
  from out inside far show ?thesis by (simp add: m)
qed

theorem push_score_conservation_witness:
  "black (scores (executeMove (game_of rim_board \<lparr>white = 0, black = 0\<rparr>) [55, 56, 57] (Some Black)
            (PushMove 1 [56, 57, 58] [58, 59] None 57))) = 1
   \<and> white (scores (executeMove (game_of rim_board \<lparr>white = 0, black = 0\<rparr>) [55, 56, 57] (Some Black)
            (PushMove 1 [56, 57, 58] [58, 59] None 57))) = 0
   \<and> scores (executeMove (game_of inside_board \<lparr>white = 0, black = 0\<rparr>) [54, 55, 56] (Some Black)
            (PushMove 1 [55, 56, 57] [57, 58] None 56)) = \<lparr>white = 0, black = 0\<rparr>
   \<and> board (executeMove (game_of inside_board \<lparr>white = 0, black = 0\<rparr>) [54, 55, 56] (Some Black)
            (PushMove 1 [55, 56, 57] [57, 58] None 56)) 59 = Some White"
proof -
  have a: "moves (Some (game_of rim_board \<lparr>white = 0, black = 0\<rparr>)) [55, 56, 57] (Some Black) =
    Some [PushMove 1 [56, 57, 58] [58, 59] None 57,
          SimpleMove (- 1) [54, 55, 56], SimpleMove 9 [64, 65, 66], SimpleMove (- 9) [46, 47, 48],
          SimpleMove 10 [65, 66, 67], SimpleMove (- 10) [45, 46, 47]]"
    by code_simp
  have b: "moves (Some (game_of inside_board \<lparr>white = 0, black = 0\<rparr>)) [54, 55, 56] (Some Black) =
    Some [PushMove 1 [55, 56, 57] [57, 58] None 56,
          SimpleMove (- 1) [53, 54, 55], SimpleMove 9 [63, 64, 65], SimpleMove (- 9) [45, 46, 47],
          SimpleMove 10 [64, 65, 66], SimpleMove (- 10) [44, 45, 46]]"
    by code_simp
  have off: "(60::int) \<notin> CELL_SET" and on: "(59::int) \<in> CELL_SET"
    by (simp_all add: CELL_SET_def CELLS_def)
  from push_score_conservation[OF a, of "PushMove 1 [56, 57, 58] [58, 59] None 57"] off
  have "black (scores (executeMove (game_of rim_board \<lparr>white = 0, black = 0\<rparr>) [55, 56, 57] (Some Black)
            (PushMove 1 [56, 57, 58] [58, 59] None 57))) = 1
   \<and> white (scores (executeMove (game_of rim_board \<lparr>white = 0, black = 0\<rparr>) [55, 56, 57] (Some Black)
            (PushMove 1 [56, 57, 58] [58, 59] None 57))) = 0"
    by (simp add: game_of_def)
  moreover
  from push_score_conservation[OF b, of "PushMove 1 [55, 56, 57] [57, 58] None 56"] on
  have "scores (executeMove (game_of inside_board \<lparr>white = 0, black = 0\<rparr>) [54, 55, 56] (Some Black)
            (PushMove 1 [55, 56, 57] [57, 58] None 56)) = \<lparr>white = 0, black = 0\<rparr>
   \<and> board (executeMove (game_of inside_board \<lparr>white = 0, black = 0\<rparr>) [54, 55, 56] (Some Black)
            (PushMove 1 [55, 56, 57] [57, 58] None 56)) 59 = Some White"
    by (simp add: game_of_def)
  ultimately show ?thesis by blast
qed

text \<open>C3, as the specification states it, fails when three stones push two over the rim: the
  far cell 60 is off the board, two stones are pushed, and the mover's score grows from 0 to 1,
  not to 2.\<close>

theorem push_score_counterexample:
  "PushMove 1 [56, 57, 58] [58, 59] None 57
      \<in> set (the (moves (Some (game_of rim_board \<lparr>white = 0, black = 0\<rparr>)) [55, 56, 57] (Some Black)))
   \<and> last [58, 59] + 1 \<notin> CELL_SET
   \<and> black (scores (executeMove (game_of rim_board \<lparr>white = 0, black = 0\<rparr>) [55, 56, 57] (Some Black)
            (PushMove 1 [56, 57, 58] [58, 59] None 57))) = 1
   \<and> black (scores (game_of rim_board \<lparr>white = 0, black = 0\<rparr>)) + int (length [58, 59 :: int]) = 2
   \<and> black (scores (executeMove (game_of rim_board \<lparr>white = 0, black = 0\<rparr>) [55, 56, 57] (Some Black)
            (PushMove 1 [56, 57, 58] [58, 59] None 57)))
       \<noteq> black (scores (game_of rim_board \<lparr>white = 0, black = 0\<rparr>)) + int (length [58, 59 :: int])"
proof -
  have "PushMove 1 [56, 57, 58] [58, 59] None 57
      \<in> set (the (moves (Some (game_of rim_board \<lparr>white = 0, black = 0\<rparr>)) [55, 56, 57] (Some Black)))"
    by code_simp
  moreover have "last [58, 59] + 1 \<notin> CELL_SET"
    by (simp add: CELL_SET_def CELLS_def)
  moreover have "black (scores (executeMove (game_of rim_board \<lparr>white = 0, black = 0\<rparr>) [55, 56, 57]
            (Some Black) (PushMove 1 [56, 57, 58] [58, 59] None 57))) = 1"
    by code_simp
  moreover have "black (scores (game_of rim_board \<lparr>white = 0, black = 0\<rparr>)) + int (length [58, 59 :: int]) = 2"
    by (simp add: game_of_def)
  ultimately show ?thesis by simp
qed

text \<open>\<open>makeMove\<close>, with its two passes, moves every pushed stone one step: each pushed cell
  whose successor is a valid cell has the opponent's colour there afterwards, and the mover's
  score grows by one for each pushed cell whose successor is off the board.\<close>

lemma makeMove_push_effect:
  assumes "getPossibleMoves st = Some ms" and "m \<in> set ms" and "is_push m"
  shows "(\<forall>c\<in>set (pushed m). c + dir m \<in> CELL_SET \<longrightarrow>
            board (makeMove st m) (c + dir m) = Some (opponent (playerRole st)))
       \<and> scores (makeMove st m) =
           (increment (playerRole st) ^^ length (filter (\<lambda>c. c + dir m \<notin> CELL_SET) (pushed m)))
             (scores st)"
  using assms(1,2)
proof (cases rule: getPossibleMoves_elem)
  case (simple d)
  with assms(3) show ?thesis by simp
next
  case (push d ps cur)
  define sel where "sel = selected st"
  define f where "f = (if d > 0 then sort sel ! (length sel - 1) else sort sel ! 0)"
  have m: "m = PushMove d (map (\<lambda>c. c + d) (sort sel)) ps (Some cur) f"
    unfolding f_def sel_def by (rule push(3))
  have walk: "pushWalk (board st) (playerRole st) d [] (f + d) = Some (ps, cur)"
    unfolding f_def sel_def by (rule push(4))
  from walk_cells[OF walk] have ps: "ps = map (\<lambda>i. f + d + int i * d) [0..<length ps]"
    by simp
  have moved: "board (makeMove st m) (c + d) = Some (opponent (playerRole st))"
    if c: "c \<in> set ps" and valid: "c + d \<in> CELL_SET" for c
  proof -
    from c obtain i where i: "i < length ps" "c = f + d + int i * d"
      by (subst (asm) ps) auto
    then have eq: "c + d = (if d > 0 then sort sel ! (length sel - 1) else sort sel ! 0)
                             + d + int (Suc i) * d"
      by (simp add: f_def algebra_simps)
    have "c + d \<notin> set sel \<and> c + d \<notin> set (map (\<lambda>c. c + d) (sort sel))"
      by (rule far_not_touched[OF directions_nonzero[OF push(1)] _ eq]) simp
    then have untouched: "c + d \<notin> set sel" "c + d \<notin> set (map (\<lambda>c. c + d) (sort sel))"
      by blast+
    from c valid have "fst (foldl (makeMove_pushed (playerRole st) d)
                (foldl (\<lambda>b c. b(c := None)) (board st) ps, scores st) ps) (c + d)
              = Some (opponent (playerRole st))"
      by (simp add: makeMove_pushed_apply)
    with untouched show ?thesis
      by (simp add: board_makeMove m foldl_write_apply foldl_delete_apply sel_def)
  qed
  have "scores (makeMove st m) =
      (increment (playerRole st) ^^ length (filter (\<lambda>c. c + d \<notin> CELL_SET) ps)) (scores st)"
    by (simp add: scores_makeMove m makeMove_pushed_scores)
  with moved show ?thesis by (simp add: m)
qed

text \<open>C2 at a concrete position. Black's stones on 54, 55, 56 push the white stones on 57 and
  58 towards the free cell 59. \<open>executeMove\<close> writes white at 58 for the stone from 57 and then
  deletes 58 again when it handles the second stone, so 58 ends empty and one white stone is
  gone without a score; \<open>makeMove\<close> leaves white on both 58 and 59.\<close>

theorem executeMove_drops_pushed_stone:
  "PushMove 1 [55, 56, 57] [57, 58] None 56
      \<in> set (the (moves (Some (game_of inside_board \<lparr>white = 0, black = 0\<rparr>)) [54, 55, 56] (Some Black)))
   \<and> 57 + 1 \<in> CELL_SET
   \<and> board (executeMove (game_of inside_board \<lparr>white = 0, black = 0\<rparr>) [54, 55, 56] (Some Black)
        (PushMove 1 [55, 56, 57] [57, 58] None 56)) 58 = None
   \<and> map (board (executeMove (game_of inside_board \<lparr>white = 0, black = 0\<rparr>) [54, 55, 56] (Some Black)
        (PushMove 1 [55, 56, 57] [57, 58] None 56))) [54, 55, 56, 57, 58, 59]
       = [None, Some Black, Some Black, Some Black, None, Some White]
   \<and> scores (executeMove (game_of inside_board \<lparr>white = 0, black = 0\<rparr>) [54, 55, 56] (Some Black)
        (PushMove 1 [55, 56, 57] [57, 58] None 56)) = \<lparr>white = 0, black = 0\<rparr>
   \<and> PushMove 1 [55, 56, 57] [57, 58] (Some 59) 56
      \<in> set (the (getPossibleMoves (component_of inside_board \<lparr>white = 0, black = 0\<rparr> [54, 55, 56])))
   \<and> map (board (makeMove (component_of inside_board \<lparr>white = 0, black = 0\<rparr> [54, 55, 56])
        (PushMove 1 [55, 56, 57] [57, 58] (Some 59) 56))) [54, 55, 56, 57, 58, 59]
       = [None, Some Black, Some Black, Some Black, Some White, Some White]"
proof -
  have "PushMove 1 [55, 56, 57] [57, 58] None 56
      \<in> set (the (moves (Some (game_of inside_board \<lparr>white = 0, black = 0\<rparr>)) [54, 55, 56] (Some Black)))"
    by code_simp
  moreover have "57 + 1 \<in> CELL_SET"
    by (simp add: CELL_SET_def CELLS_def)
  moreover have "board (executeMove (game_of inside_board \<lparr>white = 0, black = 0\<rparr>) [54, 55, 56] (Some Black)
        (PushMove 1 [55, 56, 57] [57, 58] None 56)) 58 = None"
    by code_simp
  moreover have "map (board (executeMove (game_of inside_board \<lparr>white = 0, black = 0\<rparr>) [54, 55, 56] (Some Black)
        (PushMove 1 [55, 56, 57] [57, 58] None 56))) [54, 55, 56, 57, 58, 59]
       = [None, Some Black, Some Black, Some Black, None, Some White]"
    by code_simp
  moreover have "scores (executeMove (game_of inside_board \<lparr>white = 0, black = 0\<rparr>) [54, 55, 56] (Some Black)
        (PushMove 1 [55, 56, 57] [57, 58] None 56)) = \<lparr>white = 0, black = 0\<rparr>"
    by code_simp
  moreover have "PushMove 1 [55, 56, 57] [57, 58] (Some 59) 56
      \<in> set (the (getPossibleMoves (component_of inside_board \<lparr>white = 0, black = 0\<rparr> [54, 55, 56])))"
    by code_simp
  moreover have "map (board (makeMove (component_of inside_board \<lparr>white = 0, black = 0\<rparr> [54, 55, 56])
        (PushMove 1 [55, 56, 57] [57, 58] (Some 59) 56))) [54, 55, 56, 57, 58, 59]
       = [None, Some Black, Some Black, Some Black, Some White, Some White]"
    by code_simp
  ultimately show ?thesis by blast
qed

section \<open>Selections\<close>

lemma isArithmeticSequence_line:
  assumes "isArithmeticSequence xs" and "2 \<le> length xs"
  shows "spec_line xs"
proof -
  define s where "s = sort xs"
  define k where "k = s ! 1 - s ! 0"
  have len: "length s = length xs" by (simp add: s_def)
  from assms have k: "k \<in> set [1, 9, 10]"
    and all: "\<forall>i<length s. i = 0 \<or> s ! i - s ! (i - 1) = k"
    by (auto simp: isArithmeticSequence_def Let_def s_def k_def list_all_iff split: if_splits)
  have "constant_step k s"
    unfolding constant_step_def list_all_iff
  proof
    fix i assume "i \<in> set [0..<length s - 1]"
    then have "Suc i < length s" by auto
    with all have "Suc i = 0 \<or> s ! Suc i - s ! (Suc i - 1) = k" by blast
    then show "s ! Suc i - s ! i = k" by simp
  qed
  with k show ?thesis unfolding spec_line_def list_ex_iff s_def by blast
qed

lemma isArithmeticSequence_for_line:
  assumes "isArithmeticSequence_for xs" and "2 \<le> length xs"
  shows "spec_line xs"
proof -
  define s where "s = sort xs"
  define k where "k = s ! 1 - s ! 0"
  have len: "length s = length xs" by (simp add: s_def)
  from assms have k: "k \<in> set [1, 9, 10]"
    and all: "\<forall>i\<in>set [2..<length s]. s ! i - s ! (i - 1) = k"
    by (auto simp: isArithmeticSequence_for_def Let_def s_def k_def list_all_iff split: if_splits)
  have "constant_step k s"
    unfolding constant_step_def list_all_iff
  proof
    fix i assume "i \<in> set [0..<length s - 1]"
    then have i: "Suc i < length s" by auto
    show "s ! Suc i - s ! i = k"
    proof (cases i)
      case 0
      then show ?thesis by (simp add: k_def)
    next
      case (Suc j)
      with i have "Suc i \<in> set [2..<length s]" by simp
      with all have "s ! Suc i - s ! (Suc i - 1) = k" by blast
      then show ?thesis by simp
    qed
  qed
  with k show ?thesis unfolding spec_line_def list_ex_iff s_def by blast
qed

lemma isArithmeticSequence_single: "length xs \<le> 1 \<Longrightarrow> isArithmeticSequence xs"
  by (simp add: isArithmeticSequence_def)

lemma isArithmeticSequence_for_single: "length xs \<le> 1 \<Longrightarrow> isArithmeticSequence_for xs"
  by (simp add: isArithmeticSequence_for_def)

lemma isArithmeticSequence_for_sort:
  "isArithmeticSequence_for (sort xs) = isArithmeticSequence_for xs"
  by (simp add: isArithmeticSequence_for_def sorted_sort_id)

lemma onClick_keeps_line:
  assumes "isArithmeticSequence sel" and "c \<notin> set sel"
  shows "isArithmeticSequence (onClick brd role sel c)"
  using assms by (auto simp: onClick_def Let_def isArithmeticSequence_single)

lemma onClick_walk_line:
  "onClick_walk brd role sel cs = Some sel' \<Longrightarrow> isArithmeticSequence sel \<Longrightarrow>
   isArithmeticSequence sel'"
proof (induction cs arbitrary: sel)
  case Nil
  then show ?case by simp
next
  case (Cons c cs)
  from Cons.prems(1) have c: "c \<notin> set sel"
    and rest: "onClick_walk brd role (onClick brd role sel c) cs = Some sel'"
    by (auto split: if_splits)
  from Cons.IH[OF rest onClick_keeps_line[OF Cons.prems(2) c]] show ?case .
qed

lemma handleCellClick_keeps_line:
  assumes "isArithmeticSequence_for (selected st)" and "c \<notin> set (selected st)"
  shows "isArithmeticSequence_for (selected (handleCellClick c st))"
  using assms
  by (auto simp: handleCellClick_def Let_def isArithmeticSequence_for_single
      isArithmeticSequence_for_sort)

lemma handleCellClick_walk_line:
  "handleCellClick_walk st cs = Some st' \<Longrightarrow> isArithmeticSequence_for (selected st) \<Longrightarrow>
   isArithmeticSequence_for (selected st')"
proof (induction cs arbitrary: st)
  case Nil
  then show ?case by simp
next
  case (Cons c cs)
  from Cons.prems(1) have c: "c \<notin> set (selected st)"
    and rest: "handleCellClick_walk (handleCellClick c st) cs = Some st'"
    by (auto split: if_splits)
  from Cons.IH[OF rest handleCellClick_keeps_line[OF Cons.prems(2) c]] show ?case .
qed

text \<open>C5. Start from the empty selection and click cells one after the other, never a cell
  that is selected at that moment, so that every click is an attempt to start or to extend the
  selection. Whenever the selection reached has 2 or 3 members, its sorted coordinates form an
  arithmetic sequence with a constant step, and the step is 1, 9 or 10. This holds for the click
  handler of App.jsx and for \<open>handleCellClick\<close>.\<close>

theorem selection_line_invariant:
  "(onClick_walk brd role [] cs = Some sel \<and> (length sel = 2 \<or> length sel = 3)
      \<longrightarrow> spec_line sel)
   \<and> (selected st = [] \<and> handleCellClick_walk st cs' = Some st'
        \<and> (length (selected st') = 2 \<or> length (selected st') = 3)
      \<longrightarrow> spec_line (selected st'))"
proof (intro conjI impI)
  assume a: "onClick_walk brd role [] cs = Some sel \<and> (length sel = 2 \<or> length sel = 3)"
  then have "isArithmeticSequence sel"
    using onClick_walk_line[of brd role "[]" cs sel] by (simp add: isArithmeticSequence_single)
  with a show "spec_line sel" by (intro isArithmeticSequence_line) auto
next
  assume a: "selected st = [] \<and> handleCellClick_walk st cs' = Some st'
        \<and> (length (selected st') = 2 \<or> length (selected st') = 3)"
  then have "isArithmeticSequence_for (selected st')"
    using handleCellClick_walk_line[of st cs' st'] by (simp add: isArithmeticSequence_for_single)
  with a show "spec_line (selected st')" by (intro isArithmeticSequence_for_line) auto
qed

theorem selection_line_invariant_witness:
  "onClick_walk line_board (Some Black) [] [63, 62, 64] = Some [63, 62, 64]
   \<and> spec_line [63, 62, 64]
   \<and> handleCellClick_walk (component_of line_board \<lparr>white = 0, black = 0\<rparr> []) [63, 62, 64]
       = Some (component_of line_board \<lparr>white = 0, black = 0\<rparr> [62, 63, 64])
   \<and> spec_line [62, 63, 64]"
proof -
  have a: "onClick_walk line_board (Some Black) [] [63, 62, 64] = Some [63, 62, 64]"
    by code_simp
  have b: "handleCellClick_walk (component_of line_board \<lparr>white = 0, black = 0\<rparr> []) [63, 62, 64]
       = Some (component_of line_board \<lparr>white = 0, black = 0\<rparr> [62, 63, 64])"
    by (simp add: handleCellClick_def component_of_def line_board_def
        isArithmeticSequence_for_def Let_def)
  have c: "selected (component_of line_board \<lparr>white = 0, black = 0\<rparr> xs) = xs" for xs
    by (simp add: component_of_def)
  from selection_line_invariant[of line_board "Some Black" "[63, 62, 64]" "[63, 62, 64]"
      "component_of line_board \<lparr>white = 0, black = 0\<rparr> []" "[63, 62, 64]"
      "component_of line_board \<lparr>white = 0, black = 0\<rparr> [62, 63, 64]"] a b
  show ?thesis by (simp add: c)
qed

text \<open>C9, as the code has it, for a click on a cell that is not selected and carries no move.
  When the cell is not occupied by the player's colour, both handlers leave the selection
  unchanged. When the cell is the player's and the selection already has 3 members or the
  enlarged set fails the line test, \<open>handleCellClick\<close> leaves the selection unchanged, while
  the click handler of App.jsx replaces the selection by the clicked cell alone.\<close>

theorem declined_extension:
  "(c \<notin> set sel \<and> \<not> (brd c \<noteq> None \<and> brd c = role) \<longrightarrow> onClick brd role sel c = sel)
   \<and> (c \<notin> set sel \<and> brd c \<noteq> None \<and> brd c = role
        \<and> (3 \<le> length sel \<or> \<not> isArithmeticSequence (sel @ [c]))
      \<longrightarrow> onClick brd role sel c = [c])
   \<and> (c \<notin> set (selected st)
        \<and> (\<not> (board st c \<noteq> None \<and> board st c = playerRole st)
            \<or> 3 \<le> length (selected st)
            \<or> \<not> isArithmeticSequence_for (sort (selected st @ [c])))
      \<longrightarrow> selected (handleCellClick c st) = selected st)"
proof (intro conjI impI)
  assume "c \<notin> set sel \<and> \<not> (brd c \<noteq> None \<and> brd c = role)"
  then show "onClick brd role sel c = sel"
    by (auto simp: onClick_def Let_def)
next
  assume "c \<notin> set sel \<and> brd c \<noteq> None \<and> brd c = role
        \<and> (3 \<le> length sel \<or> \<not> isArithmeticSequence (sel @ [c]))"
  then show "onClick brd role sel c = [c]"
    by (auto simp: onClick_def Let_def)
next
  assume a: "c \<notin> set (selected st)
        \<and> (\<not> (board st c \<noteq> None \<and> board st c = playerRole st)
            \<or> 3 \<le> length (selected st)
            \<or> \<not> isArithmeticSequence_for (sort (selected st @ [c])))"
  have "isArithmeticSequence_for (sort [c])"
    by (simp add: isArithmeticSequence_for_def)
  with a show "selected (handleCellClick c st) = selected st"
    by (auto simp: handleCellClick_def Let_def)
qed

theorem declined_extension_witness:
  "onClick line_board (Some Black) [62] 61 = [62]
   \<and> onClick line_board (Some Black) [62, 63, 64] 65 = [65]
   \<and> onClick line_board (Some Black) [62] 75 = [75]
   \<and> selected (handleCellClick 75 (component_of line_board \<lparr>white = 0, black = 0\<rparr> [62])) = [62]
   \<and> selected (handleCellClick 65 (component_of line_board \<lparr>white = 0, black = 0\<rparr> [62, 63, 64]))
       = [62, 63, 64]"
proof -
  have e: "line_board 61 = None" "line_board 65 = Some Black" "line_board 75 = Some Black"
    by (simp_all add: line_board_def)
  have n: "\<not> isArithmeticSequence ([62] @ [75])" "\<not> isArithmeticSequence_for (sort ([62] @ [75]))"
    by (simp_all add: isArithmeticSequence_def isArithmeticSequence_for_def)
  have c: "selected (component_of line_board \<lparr>white = 0, black = 0\<rparr> xs) = xs"
    "board (component_of line_board \<lparr>white = 0, black = 0\<rparr> xs) = line_board" for xs
    by (simp_all add: component_of_def)
  from declined_extension[of 61 "[62]" line_board "Some Black"] e
  have "onClick line_board (Some Black) [62] 61 = [62]" by simp
  moreover from declined_extension[of 65 "[62, 63, 64]" line_board "Some Black"] e
  have "onClick line_board (Some Black) [62, 63, 64] 65 = [65]" by simp
  moreover from declined_extension[of 75 "[62]" line_board "Some Black"] e n
  have "onClick line_board (Some Black) [62] 75 = [75]" by simp
  moreover from declined_extension[where c = 75 and st = "component_of line_board \<lparr>white = 0, black = 0\<rparr> [62]"] n
  have "selected (handleCellClick 75 (component_of line_board \<lparr>white = 0, black = 0\<rparr> [62])) = [62]"
    by (simp add: c)
  moreover from declined_extension[where c = 65
      and st = "component_of line_board \<lparr>white = 0, black = 0\<rparr> [62, 63, 64]"]
  have "selected (handleCellClick 65 (component_of line_board \<lparr>white = 0, black = 0\<rparr> [62, 63, 64]))
       = [62, 63, 64]"
    by (simp add: c)
  ultimately show ?thesis by blast
qed

text \<open>C9, as the specification states it, fails for the click handler of App.jsx: with 62, 63
  and 64 selected, a click on the player's stone at 65 leaves the selection \<open>[65]\<close>, and with
  62 selected a click on the player's stone at 75, which is not in line with 62, leaves
  \<open>[75]\<close>.\<close>

theorem click_resets_selection_counterexample:
  "line_board 65 = Some Black \<and> 65 \<notin> set [62, 63, 64 :: int] \<and> length [62, 63, 64 :: int] = 3
   \<and> onClick line_board (Some Black) [62, 63, 64] 65 = [65]
   \<and> onClick line_board (Some Black) [62, 63, 64] 65 \<noteq> [62, 63, 64]
   \<and> line_board 75 = Some Black \<and> \<not> isArithmeticSequence ([62] @ [75])
   \<and> onClick line_board (Some Black) [62] 75 = [75]
   \<and> onClick line_board (Some Black) [62] 75 \<noteq> [62]"
  by (simp add: onClick_def line_board_def isArithmeticSequence_def Let_def)

end
